theory Spec2Isabelle
  imports Main "HOL-Library.Multiset"
begin

section \<open>Data model\<close>

text \<open>
  The security analyzer of \<^verbatim>\<open>codelyzer/analyzers/security.py\<close>. The classes
  \<^verbatim>\<open>FileMetrics\<close>, \<^verbatim>\<open>ProjectMetrics\<close> and the enumeration \<^verbatim>\<open>SecurityLevel\<close> are
  declared in \<^verbatim>\<open>codelyzer/metrics.py\<close>; the analyzer reads and writes the attributes
  modelled below. Logging (\<^verbatim>\<open>logger\<close>, \<^verbatim>\<open>debug_log\<close>, the \<^verbatim>\<open>@debug\<close> decorator) does not
  touch the metrics and is left out.
\<close>

text \<open>
  Modelled from the spec: the members of \<^verbatim>\<open>SecurityLevel\<close>. The analyzer names
  \<^verbatim>\<open>CRITICAL\<close>, \<^verbatim>\<open>HIGH_RISK\<close>, \<^verbatim>\<open>MEDIUM_RISK\<close> and \<^verbatim>\<open>LOW_RISK\<close>; \<open>OTHER_LEVEL\<close> stands for
  any further member, which reaches the final \<^verbatim>\<open>else\<close> of \<^verbatim>\<open>_level_to_severity\<close>.
\<close>

datatype SecurityLevel = CRITICAL | HIGH_RISK | MEDIUM_RISK | LOW_RISK | OTHER_LEVEL

text \<open>The dictionary built by \<^verbatim>\<open>_get_line_number\<close>, with its three keys.\<close>

record Location =
  line :: int
  column :: int
  position :: int

text \<open>
  The dictionary built by \<^verbatim>\<open>_add_vulnerability\<close>; the key \<^verbatim>\<open>'type'\<close> is the field
  \<open>vuln_type\<close>.
\<close>

record Vulnerability =
  vuln_type :: string
  message :: string
  location :: Location
  level :: SecurityLevel
  severity :: string

text \<open>
  \<^verbatim>\<open>security_score\<close> is a Python float. It starts at \<^verbatim>\<open>100.0\<close> and is only ever
  decreased by one of the integers 25, 15, 5, 1 and then replaced by its maximum with
  \<^verbatim>\<open>0.0\<close>, so every value it takes is an integer between \<open>-25\<close> and \<open>100\<close>, which a
  float holds exactly: the score is an \<open>int\<close> here.
\<close>

record SecurityMetrics =
  vulnerabilities :: "Vulnerability list"
  security_score :: int

record FileMetrics =
  file_path :: string
  language :: string
  security :: SecurityMetrics

text \<open>
  Modelled from the spec: the attribute \<^verbatim>\<open>security_issues\<close> of \<^verbatim>\<open>FileMetrics\<close>, read by
  \<^verbatim>\<open>analyze_project\<close> and declared in \<^verbatim>\<open>codelyzer/metrics.py\<close>. The spec has the
  aggregator iterate "every file's vulnerability sequence", the list that
  \<^verbatim>\<open>_add_vulnerability\<close> appends to.
\<close>

definition security_issues :: "FileMetrics \<Rightarrow> Vulnerability list" where
  "security_issues fm = vulnerabilities (security fm)"

record ProjectSecurityMetrics =
  vulnerability_types :: "string \<rightharpoonup> int"

text \<open>\<open>psecurity\<close> is the attribute \<^verbatim>\<open>security\<close> of \<^verbatim>\<open>ProjectMetrics\<close>.\<close>

record ProjectMetrics =
  file_metrics :: "FileMetrics list"
  psecurity :: ProjectSecurityMetrics

section \<open>Characters and strings\<close>

text \<open>
  A \<open>char\<close> stands for one code point below 256, so \<open>length\<close> counts what Python's
  \<^verbatim>\<open>len\<close> counts for content in that range. The three classifications below are
  those of Python's \<^verbatim>\<open>re\<close> on \<^verbatim>\<open>str\<close> patterns, restricted to these code points.
\<close>

abbreviation newline :: char where "newline \<equiv> CHR 0x0A"
abbreviation squote :: char where "squote \<equiv> CHR 0x27"
abbreviation dquote :: char where "dquote \<equiv> CHR 0x22"

definition is_space :: "char \<Rightarrow> bool" where
  "is_space c = (let n = (of_char c :: nat) in
     (9 \<le> n \<and> n \<le> 13) \<or> (28 \<le> n \<and> n \<le> 32) \<or> n = 133 \<or> n = 160)"

definition is_word :: "char \<Rightarrow> bool" where
  "is_word c = (let n = (of_char c :: nat) in
     (48 \<le> n \<and> n \<le> 57) \<or> (65 \<le> n \<and> n \<le> 90) \<or> n = 95 \<or> (97 \<le> n \<and> n \<le> 122) \<or>
     n = 170 \<or> n = 178 \<or> n = 179 \<or> n = 181 \<or> n = 185 \<or> n = 186 \<or>
     (188 \<le> n \<and> n \<le> 190) \<or> (192 \<le> n \<and> n \<le> 214) \<or> (216 \<le> n \<and> n \<le> 246) \<or>
     (248 \<le> n \<and> n \<le> 255))"

definition py_lower :: "char \<Rightarrow> char" where
  "py_lower c = (let n = (of_char c :: nat) in
     if (65 \<le> n \<and> n \<le> 90) \<or> (192 \<le> n \<and> n \<le> 222 \<and> n \<noteq> 215)
     then char_of (n + 32) else c)"

text \<open>\<^verbatim>\<open>s.startswith(p)\<close> and \<^verbatim>\<open>sub in s\<close>.\<close>

definition startswith :: "string \<Rightarrow> string \<Rightarrow> bool" where
  "startswith s p = (take (length p) s = p)"

fun contains :: "string \<Rightarrow> string \<Rightarrow> bool" where
  "contains sub [] = (sub = [])"
| "contains sub (x # xs) = (startswith (x # xs) sub \<or> contains sub xs)"

text \<open>\<^verbatim>\<open>s.split(c)\<close> for a one-character separator: never an empty list.\<close>

fun split_on :: "char \<Rightarrow> string \<Rightarrow> string list" where
  "split_on c [] = [[]]"
| "split_on c (x # xs) =
     (if x = c then [] # split_on c xs
      else (case split_on c xs of [] \<Rightarrow> [[x]] | seg # segs \<Rightarrow> (x # seg) # segs))"

text \<open>\<^verbatim>\<open>s[:p]\<close>: a negative bound counts from the end.\<close>

definition slice_to :: "string \<Rightarrow> int \<Rightarrow> string" where
  "slice_to s p = (if p < 0 then take (nat (int (length s) + p)) s else take (nat p) s)"

text \<open>\<^verbatim>\<open>str(n)\<close> for an integer, as the f-strings of the messages format it.\<close>

definition digit_char :: "nat \<Rightarrow> char" where
  "digit_char d = char_of (48 + d)"

fun str_nat :: "nat \<Rightarrow> string" where
  "str_nat n = (if n < 10 then [digit_char n] else str_nat (n div 10) @ [digit_char (n mod 10)])"

declare str_nat.simps [simp del]

definition str_int :: "int \<Rightarrow> string" where
  "str_int i = (if i < 0 then CHR ''-'' # str_nat (nat (- i)) else str_nat (nat i))"

section \<open>Location resolver and score accumulator\<close>

text \<open>
  \<^verbatim>\<open>_get_line_number\<close> (the leading underscore of the source's private names is dropped).
  \<open>last\<close> is applied to a list that is never empty (\<open>split_on\<close>).
\<close>

definition get_line_number :: "string \<Rightarrow> int \<Rightarrow> Location" where
  "get_line_number content pos =
     (let lines = split_on newline (slice_to content pos)
      in \<lparr> line = int (length lines),
           column = int (length (last lines)) + 1,
           position = pos \<rparr>)"

fun level_to_severity :: "SecurityLevel \<Rightarrow> string" where
  "level_to_severity CRITICAL = ''critical''"
| "level_to_severity HIGH_RISK = ''high''"
| "level_to_severity MEDIUM_RISK = ''medium''"
| "level_to_severity LOW_RISK = ''low''"
| "level_to_severity OTHER_LEVEL = ''info''"

text \<open>The \<^verbatim>\<open>if\<close>/\<^verbatim>\<open>elif\<close> chain of \<^verbatim>\<open>_add_vulnerability\<close>: what is subtracted.\<close>

fun deduction :: "SecurityLevel \<Rightarrow> int" where
  "deduction CRITICAL = 25"
| "deduction HIGH_RISK = 15"
| "deduction MEDIUM_RISK = 5"
| "deduction LOW_RISK = 1"
| "deduction OTHER_LEVEL = 0"

definition add_vulnerability ::
  "FileMetrics \<Rightarrow> string \<Rightarrow> string \<Rightarrow> Location \<Rightarrow> SecurityLevel \<Rightarrow> FileMetrics" where
  "add_vulnerability fm vtype msg loc lvl =
     (let vulnerability = \<lparr> vuln_type = vtype, message = msg, location = loc,
                             level = lvl, severity = level_to_severity lvl \<rparr>;
          sec = security fm;
          sec1 = sec \<lparr> vulnerabilities := vulnerabilities sec @ [vulnerability] \<rparr>;
          sec2 = sec1 \<lparr> security_score := security_score sec1 - deduction lvl \<rparr>;
          sec3 = sec2 \<lparr> security_score := max 0 (security_score sec2) \<rparr>
      in fm \<lparr> security := sec3 \<rparr>)"

section \<open>Pattern matching\<close>

text \<open>
  The patterns of the rule catalogue use a small part of Python's \<^verbatim>\<open>re\<close> syntax: literal
  characters, the sets \<^verbatim>\<open>[...]\<close> and \<^verbatim>\<open>[^...]\<close>, the classes \<^verbatim>\<open>\w\<close> and \<^verbatim>\<open>\s\<close>, the
  greedy quantifiers \<^verbatim>\<open>*\<close>, \<^verbatim>\<open>+\<close> and \<^verbatim>\<open>?\<close> on a single character, and one negative lookahead
  \<^verbatim>\<open>(?!...)\<close>. A pattern is the sequence of its items.
\<close>

datatype cset = Lit char | OneOf string | NoneOf string | Word | Space

datatype atom = One cset | Star cset | Plus cset | Opt cset

datatype item = Atom atom | NegLookahead "atom list"

type_synonym pattern = "item list"

text \<open>
  Whether one character of the text is in a set; \<open>ic\<close> is the flag \<^verbatim>\<open>re.IGNORECASE\<close>,
  under which the engine compares lower-cased characters.
\<close>

fun cset_match :: "bool \<Rightarrow> cset \<Rightarrow> char \<Rightarrow> bool" where
  "cset_match ic (Lit c) x = (if ic then py_lower x = py_lower c else x = c)"
| "cset_match ic (OneOf cs) x = (if ic then py_lower x \<in> set (map py_lower cs) else x \<in> set cs)"
| "cset_match ic (NoneOf cs) x = (if ic then py_lower x \<notin> set (map py_lower cs) else x \<notin> set cs)"
| "cset_match ic Word x = is_word x"
| "cset_match ic Space x = is_space x"

text \<open>
  The engine backtracks. \<open>atom_ends\<close> lists, in the order in which the engine tries
  them, the texts that may remain after an atom has consumed a prefix of \<open>s\<close>: a greedy
  quantifier tries the longest run first and gives characters back one at a time.
\<close>

fun star_ends :: "(char \<Rightarrow> bool) \<Rightarrow> string \<Rightarrow> string list" where
  "star_ends p [] = [[]]"
| "star_ends p (x # xs) = (if p x then star_ends p xs @ [x # xs] else [x # xs])"

fun atom_ends :: "bool \<Rightarrow> atom \<Rightarrow> string \<Rightarrow> string list" where
  "atom_ends ic (One c) s =
     (case s of [] \<Rightarrow> [] | x # xs \<Rightarrow> if cset_match ic c x then [xs] else [])"
| "atom_ends ic (Star c) s = star_ends (cset_match ic c) s"
| "atom_ends ic (Plus c) s =
     (case s of [] \<Rightarrow> [] | x # xs \<Rightarrow> if cset_match ic c x then star_ends (cset_match ic c) xs else [])"
| "atom_ends ic (Opt c) s =
     (case s of [] \<Rightarrow> [[]] | x # xs \<Rightarrow> if cset_match ic c x then [xs, x # xs] else [x # xs])"

text \<open>The first alternative that succeeds, in the engine's order.\<close>

fun first_some :: "('a \<Rightarrow> 'b option) \<Rightarrow> 'a list \<Rightarrow> 'b option" where
  "first_some f [] = None"
| "first_some f (x # xs) = (case f x of Some y \<Rightarrow> Some y | None \<Rightarrow> first_some f xs)"

text \<open>
  Matching a sequence of items at the start of \<open>s\<close>: the text left after the match the
  engine finds first, or \<open>None\<close> when every alternative fails.
\<close>

primrec match_with :: "('i \<Rightarrow> string \<Rightarrow> string list) \<Rightarrow> 'i list \<Rightarrow> string \<Rightarrow> string option" where
  "match_with e [] s = Some s"
| "match_with e (i # is) s = first_some (match_with e is) (e i s)"

definition match_atoms :: "bool \<Rightarrow> atom list \<Rightarrow> string \<Rightarrow> string option" where
  "match_atoms ic = match_with (atom_ends ic)"

fun item_ends :: "bool \<Rightarrow> item \<Rightarrow> string \<Rightarrow> string list" where
  "item_ends ic (Atom a) s = atom_ends ic a s"
| "item_ends ic (NegLookahead as) s = (if match_atoms ic as s = None then [s] else [])"

definition match_items :: "bool \<Rightarrow> pattern \<Rightarrow> string \<Rightarrow> string option" where
  "match_items ic = match_with (item_ends ic)"

text \<open>The number of characters of the match at the start of \<open>s\<close>.\<close>

definition match_len :: "bool \<Rightarrow> pattern \<Rightarrow> string \<Rightarrow> nat option" where
  "match_len ic pat s =
     (case match_items ic pat s of None \<Rightarrow> None | Some rest \<Rightarrow> Some (length s - length rest))"

text \<open>
  \<^verbatim>\<open>re.finditer\<close>: the matches from left to right, none overlapping, each as
  \<^verbatim>\<open>(match.start(), match.group(0))\<close>. \<open>off\<close> is the offset of \<open>s\<close> in the content.
  No pattern of the catalogue matches the empty string; for one that does, the scan
  reports the empty match and moves on by one character.
\<close>

function finditer_from :: "bool \<Rightarrow> pattern \<Rightarrow> nat \<Rightarrow> string \<Rightarrow> (nat \<times> string) list" where
  "finditer_from ic pat off s =
     (case match_len ic pat s of
        Some (Suc k) \<Rightarrow>
          (off, take (Suc k) s) # finditer_from ic pat (off + Suc k) (drop (Suc k) s)
      | Some 0 \<Rightarrow>
          (off, []) # (case s of [] \<Rightarrow> [] | x # xs \<Rightarrow> finditer_from ic pat (Suc off) xs)
      | None \<Rightarrow>
          (case s of [] \<Rightarrow> [] | x # xs \<Rightarrow> finditer_from ic pat (Suc off) xs))"
  by pat_completeness auto

termination finditer_from
  by (relation "measure (\<lambda>(ic, pat, off, s). length s)")
     (auto simp: match_len_def split: option.splits)

declare finditer_from.simps [simp del]

definition finditer :: "bool \<Rightarrow> pattern \<Rightarrow> string \<Rightarrow> (nat \<times> string) list" where
  "finditer ic pat content = finditer_from ic pat 0 content"

section \<open>Rule catalogue\<close>

definition lits :: "string \<Rightarrow> pattern" where
  "lits s = map (\<lambda>c. Atom (One (Lit c))) s"

definition atoms :: "atom list \<Rightarrow> pattern" where
  "atoms as = map Atom as"

abbreviation quote :: cset where "quote \<equiv> OneOf [squote, dquote]"
abbreviation not_quote :: cset where "not_quote \<equiv> NoneOf [squote, dquote]"

text \<open>\<^verbatim>\<open>(?!['\"]\w+['\"])\<close>\<close>

definition not_quoted_word :: item where
  "not_quoted_word = NegLookahead [One quote, Plus Word, One quote]"

text \<open>
  \<^verbatim>\<open>os\.system\((?!['\"]\w+['\"])[^\)]*\)\<close>, the same for \<^verbatim>\<open>subprocess\.call\<close> and
  \<^verbatim>\<open>subprocess\.Popen\<close>, and \<^verbatim>\<open>eval\([^\)]*\)\<close>.
\<close>

definition os_command_injection_patterns :: "pattern list" where
  "os_command_injection_patterns =
     [lits ''os.system('' @ [not_quoted_word] @ atoms [Star (NoneOf '')''), One (Lit (CHR '')''))],
      lits ''subprocess.call('' @ [not_quoted_word] @ atoms [Star (NoneOf '')''), One (Lit (CHR '')''))],
      lits ''subprocess.Popen('' @ [not_quoted_word] @ atoms [Star (NoneOf '')''), One (Lit (CHR '')''))],
      lits ''eval('' @ atoms [Star (NoneOf '')''), One (Lit (CHR '')''))]]"

text \<open>
  \<^verbatim>\<open>execute\([^,]*\+[^\)]*\)\<close>, \<^verbatim>\<open>execute\([^,]*%[^\)]*\)\<close>,
  \<^verbatim>\<open>execute\([^,]*f['\"][^'\"]*{[^}]*}[^'\"]*['\"]\<close>, \<^verbatim>\<open>cursor\.execute\([^,]*\+[^\)]*\)\<close>.
\<close>

definition sql_injection_patterns :: "pattern list" where
  "sql_injection_patterns =
     [lits ''execute('' @ atoms [Star (NoneOf '',''), One (Lit (CHR ''+'')),
                                 Star (NoneOf '')''), One (Lit (CHR '')''))],
      lits ''execute('' @ atoms [Star (NoneOf '',''), One (Lit (CHR ''%'')),
                                 Star (NoneOf '')''), One (Lit (CHR '')''))],
      lits ''execute('' @ atoms [Star (NoneOf '',''), One (Lit (CHR ''f'')), One quote,
                                 Star not_quote, One (Lit (CHR ''{'')), Star (NoneOf ''}''),
                                 One (Lit (CHR ''}'')), Star not_quote, One quote],
      lits ''cursor.execute('' @ atoms [Star (NoneOf '',''), One (Lit (CHR ''+'')),
                                        Star (NoneOf '')''), One (Lit (CHR '')''))]]"

text \<open>\<^verbatim>\<open>eval\([^\)]+\)\<close>, \<^verbatim>\<open>document\.write\([^\)]+\)\<close>, \<^verbatim>\<open>\.innerHTML\s*=\s*[^;]+\<close>.\<close>

definition eval_pattern :: pattern where
  "eval_pattern = lits ''eval('' @ atoms [Plus (NoneOf '')''), One (Lit (CHR '')''))]"

definition document_write_pattern :: pattern where
  "document_write_pattern =
     lits ''document.write('' @ atoms [Plus (NoneOf '')''), One (Lit (CHR '')''))]"

definition innerhtml_pattern :: pattern where
  "innerhtml_pattern =
     lits ''.innerHTML'' @ atoms [Star Space, One (Lit (CHR ''='')), Star Space, Plus (NoneOf '';'')]"

text \<open>
  \<^verbatim>\<open>pickle\.loads\(\<close>, \<^verbatim>\<open>pickle\.load\(\<close>, \<^verbatim>\<open>yaml\.load\([^,)]*\)\<close>, \<^verbatim>\<open>marshal\.loads\(\<close>.
\<close>

definition insecure_deserialization_patterns :: "pattern list" where
  "insecure_deserialization_patterns =
     [lits ''pickle.loads('',
      lits ''pickle.load('',
      lits ''yaml.load('' @ atoms [Star (NoneOf '',)''), One (Lit (CHR '')''))],
      lits ''marshal.loads('']"

text \<open>
  \<^verbatim>\<open>password\s*=\s*['\"][^'\"]+['\"]\<close>, and the same after \<^verbatim>\<open>api[_]?key\<close>, \<^verbatim>\<open>secret\<close> and
  \<^verbatim>\<open>token\<close>.
\<close>

definition assigned_literal :: pattern where
  "assigned_literal =
     atoms [Star Space, One (Lit (CHR ''='')), Star Space, One quote, Plus not_quote, One quote]"

definition hardcoded_secret_patterns :: "pattern list" where
  "hardcoded_secret_patterns =
     [lits ''password'' @ assigned_literal,
      lits ''api'' @ atoms [Opt (OneOf ''_'')] @ lits ''key'' @ assigned_literal,
      lits ''secret'' @ assigned_literal,
      lits ''token'' @ assigned_literal]"

section \<open>File scanner\<close>

text \<open>
  Each check is the source's pair of loops: over the patterns, and over the matches of
  one pattern. The body resolves the start of the match and records the vulnerability.
\<close>

definition record_match ::
  "string \<Rightarrow> string \<Rightarrow> string \<Rightarrow> SecurityLevel \<Rightarrow> FileMetrics \<Rightarrow> nat \<times> string \<Rightarrow> FileMetrics" where
  "record_match content vtype msg lvl fm m =
     (let location = get_line_number content (int (fst m))
      in add_vulnerability fm vtype (msg @ str_int (line location)) location lvl)"

definition check_for_os_command_injection :: "FileMetrics \<Rightarrow> string \<Rightarrow> FileMetrics" where
  "check_for_os_command_injection fm content =
     foldl (\<lambda>fm pat.
        foldl (record_match content ''os_command_injection''
                 ''Possible command injection at line '' HIGH_RISK)
          fm (finditer False pat content))
       fm os_command_injection_patterns"

definition check_for_sql_injection :: "FileMetrics \<Rightarrow> string \<Rightarrow> FileMetrics" where
  "check_for_sql_injection fm content =
     foldl (\<lambda>fm pat.
        foldl (record_match content ''sql_injection''
                 ''Possible SQL injection at line '' CRITICAL)
          fm (finditer False pat content))
       fm sql_injection_patterns"

definition check_for_eval :: "FileMetrics \<Rightarrow> string \<Rightarrow> FileMetrics" where
  "check_for_eval fm content =
     foldl (record_match content ''unsafe_eval'' ''Unsafe eval() usage at line '' HIGH_RISK)
       fm (finditer False eval_pattern content)"

definition check_for_document_write :: "FileMetrics \<Rightarrow> string \<Rightarrow> FileMetrics" where
  "check_for_document_write fm content =
     foldl (record_match content ''document_write''
              ''Unsafe document.write() at line '' MEDIUM_RISK)
       fm (finditer False document_write_pattern content)"

definition check_for_innerhtml :: "FileMetrics \<Rightarrow> string \<Rightarrow> FileMetrics" where
  "check_for_innerhtml fm content =
     foldl (record_match content ''innerhtml''
              ''Potentially unsafe innerHTML usage at line '' MEDIUM_RISK)
       fm (finditer False innerhtml_pattern content)"

definition check_for_insecure_deserialization :: "FileMetrics \<Rightarrow> string \<Rightarrow> FileMetrics" where
  "check_for_insecure_deserialization fm content =
     foldl (\<lambda>fm pat.
        foldl (record_match content ''insecure_deserialization''
                 ''Insecure deserialization at line '' HIGH_RISK)
          fm (finditer False pat content))
       fm insecure_deserialization_patterns"

text \<open>The test of the \<^verbatim>\<open>continue\<close> in \<^verbatim>\<open>_check_for_hardcoded_secrets\<close>.\<close>

definition looks_like_env :: "string \<Rightarrow> bool" where
  "looks_like_env group0 = (contains ''os.environ'' group0 \<or> contains ''process.env'' group0)"

definition check_for_hardcoded_secrets :: "FileMetrics \<Rightarrow> string \<Rightarrow> FileMetrics" where
  "check_for_hardcoded_secrets fm content =
     foldl (\<lambda>fm pat.
        foldl (\<lambda>fm m.
           if looks_like_env (snd m) then fm
           else record_match content ''hardcoded_secret''
                  ''Possible hardcoded secret at line '' HIGH_RISK fm m)
          fm (finditer True pat content))
       fm hardcoded_secret_patterns"

definition analyze_python_security :: "FileMetrics \<Rightarrow> string \<Rightarrow> 'a option \<Rightarrow> FileMetrics" where
  "analyze_python_security fm content ast_data =
     (let fm1 = check_for_os_command_injection fm content;
          fm2 = check_for_sql_injection fm1 content;
          fm3 = check_for_insecure_deserialization fm2 content
      in check_for_hardcoded_secrets fm3 content)"

definition analyze_js_security :: "FileMetrics \<Rightarrow> string \<Rightarrow> 'a option \<Rightarrow> FileMetrics" where
  "analyze_js_security fm content ast_data =
     (let fm1 = check_for_eval fm content;
          fm2 = check_for_document_write fm1 content;
          fm3 = check_for_innerhtml fm2 content
      in check_for_hardcoded_secrets fm3 content)"

text \<open>\<open>ast_data\<close> is \<open>None\<close> when the caller passes \<^verbatim>\<open>None\<close>.\<close>

definition analyze_file :: "FileMetrics \<Rightarrow> string \<Rightarrow> 'a option \<Rightarrow> FileMetrics" where
  "analyze_file fm content ast_data =
     (if content = [] then fm
      else if language fm = ''python'' then analyze_python_security fm content ast_data
      else if language fm \<in> {''javascript'', ''typescript'', ''jsx''}
        then analyze_js_security fm content ast_data
      else fm)"

section \<open>Project aggregator\<close>

text \<open>
  One pass of the inner loop body of \<^verbatim>\<open>analyze_project\<close>: the key is created with 0
  when absent, then incremented. The key is present at the increment, so the
  \<^verbatim>\<open>KeyError\<close> branch is never taken. Every dictionary built by
  \<^verbatim>\<open>_add_vulnerability\<close> has the key \<^verbatim>\<open>'type'\<close>, so \<^verbatim>\<open>vuln.get('type', 'unknown')\<close> is
  the field \<open>vuln_type\<close>.
\<close>

definition tally :: "(string \<rightharpoonup> int) \<Rightarrow> Vulnerability \<Rightarrow> (string \<rightharpoonup> int)" where
  "tally types vuln =
     (let t = vuln_type vuln;
          types1 = (if t \<notin> dom types then types(t \<mapsto> 0) else types)
      in case types1 t of None \<Rightarrow> types1 | Some c \<Rightarrow> types1(t \<mapsto> c + 1))"

definition analyze_project :: "ProjectMetrics \<Rightarrow> ProjectMetrics" where
  "analyze_project pm =
     (let types = foldl (\<lambda>types fm. foldl tally types (security_issues fm))
                    Map.empty (file_metrics pm)
      in pm \<lparr> psecurity := (psecurity pm) \<lparr> vulnerability_types := types \<rparr> \<rparr>)"
section \<open>Notions used to state the properties\<close>

text \<open>
  A call of \<^verbatim>\<open>_add_vulnerability\<close> is given by its four arguments; \<open>recorded\<close> is the
  dictionary the call appends, \<open>add_all\<close> a sequence of calls on one file record, and
  \<open>charge\<close> what such a sequence does to the score.
\<close>

type_synonym call = "string \<times> string \<times> Location \<times> SecurityLevel"

definition call_level :: "call \<Rightarrow> SecurityLevel" where
  "call_level c = snd (snd (snd c))"

definition recorded :: "call \<Rightarrow> Vulnerability" where
  "recorded c = (case c of (vtype, msg, loc, lvl) \<Rightarrow>
     \<lparr> vuln_type = vtype, message = msg, location = loc, level = lvl,
       severity = level_to_severity lvl \<rparr>)"

definition add_all :: "FileMetrics \<Rightarrow> call list \<Rightarrow> FileMetrics" where
  "add_all fm calls =
     foldl (\<lambda>fm (vtype, msg, loc, lvl). add_vulnerability fm vtype msg loc lvl) fm calls"

definition charge :: "int \<Rightarrow> SecurityLevel list \<Rightarrow> int" where
  "charge s lvls = foldl (\<lambda>s lvl. max 0 (s - deduction lvl)) s lvls"

text \<open>
  The call made for one match, and the calls of each check in the order in which the
  source makes them: \<open>file_calls\<close> lists those of a whole scan.
\<close>

definition match_call :: "string \<Rightarrow> string \<Rightarrow> string \<Rightarrow> SecurityLevel \<Rightarrow> nat \<times> string \<Rightarrow> call" where
  "match_call content vtype msg lvl m =
     (let location = get_line_number content (int (fst m))
      in (vtype, msg @ str_int (line location), location, lvl))"

definition all_matches :: "bool \<Rightarrow> pattern list \<Rightarrow> string \<Rightarrow> (nat \<times> string) list" where
  "all_matches ic pats content = concat (map (\<lambda>pat. finditer ic pat content) pats)"

definition os_calls :: "string \<Rightarrow> call list" where
  "os_calls content =
     map (match_call content ''os_command_injection'' ''Possible command injection at line '' HIGH_RISK)
       (all_matches False os_command_injection_patterns content)"

definition sql_calls :: "string \<Rightarrow> call list" where
  "sql_calls content =
     map (match_call content ''sql_injection'' ''Possible SQL injection at line '' CRITICAL)
       (all_matches False sql_injection_patterns content)"

definition deserialization_calls :: "string \<Rightarrow> call list" where
  "deserialization_calls content =
     map (match_call content ''insecure_deserialization'' ''Insecure deserialization at line '' HIGH_RISK)
       (all_matches False insecure_deserialization_patterns content)"

definition secret_calls :: "string \<Rightarrow> call list" where
  "secret_calls content =
     map (match_call content ''hardcoded_secret'' ''Possible hardcoded secret at line '' HIGH_RISK)
       (filter (\<lambda>m. \<not> looks_like_env (snd m))
          (all_matches True hardcoded_secret_patterns content))"

definition eval_calls :: "string \<Rightarrow> call list" where
  "eval_calls content =
     map (match_call content ''unsafe_eval'' ''Unsafe eval() usage at line '' HIGH_RISK)
       (finditer False eval_pattern content)"

definition document_write_calls :: "string \<Rightarrow> call list" where
  "document_write_calls content =
     map (match_call content ''document_write'' ''Unsafe document.write() at line '' MEDIUM_RISK)
       (finditer False document_write_pattern content)"

definition innerhtml_calls :: "string \<Rightarrow> call list" where
  "innerhtml_calls content =
     map (match_call content ''innerhtml'' ''Potentially unsafe innerHTML usage at line '' MEDIUM_RISK)
       (finditer False innerhtml_pattern content)"

definition file_calls :: "string \<Rightarrow> string \<Rightarrow> call list" where
  "file_calls lang content =
     (if content = [] then []
      else if lang = ''python''
        then os_calls content @ sql_calls content @ deserialization_calls content @
             secret_calls content
      else if lang \<in> {''javascript'', ''typescript'', ''jsx''}
        then eval_calls content @ document_write_calls content @ innerhtml_calls content @
             secret_calls content
      else [])"

text \<open>A file record before its scan, and example contents.\<close>

definition ex_file :: "string \<Rightarrow> FileMetrics" where
  "ex_file lang = \<lparr> file_path = ''example'', language = lang,
      security = \<lparr> vulnerabilities = [], security_score = 100 \<rparr> \<rparr>"

definition ex_eval :: string where
  "ex_eval = ''eval(x)''"

text \<open>
  The number of vulnerabilities of type \<open>t\<close> summed over the files' vulnerability
  sequences, as the specification of the aggregator states it.
\<close>

definition occurrences :: "string \<Rightarrow> FileMetrics list \<Rightarrow> int" where
  "occurrences t fms = (\<Sum>fm\<leftarrow>fms. int (count_list (map vuln_type (security_issues fm)) t))"

text \<open>A project of two scanned files whose mapping holds a stale entry.\<close>

definition ex_vuln :: "string \<Rightarrow> Vulnerability" where
  "ex_vuln t = \<lparr> vuln_type = t, message = ''m'', location = \<lparr> line = 1, column = 1, position = 0 \<rparr>,
                 level = HIGH_RISK, severity = ''high'' \<rparr>"

definition ex_project :: ProjectMetrics where
  "ex_project =
     \<lparr> file_metrics =
         [\<lparr> file_path = ''a.py'', language = ''python'',
            security = \<lparr> vulnerabilities = [ex_vuln ''sql_injection'', ex_vuln ''hardcoded_secret''],
                         security_score = 60 \<rparr> \<rparr>,
          \<lparr> file_path = ''b.js'', language = ''javascript'',
            security = \<lparr> vulnerabilities = [ex_vuln ''hardcoded_secret''],
                         security_score = 85 \<rparr> \<rparr>],
       psecurity = \<lparr> vulnerability_types = [''stale'' \<mapsto> 7] \<rparr> \<rparr>"

text \<open>
  Five queries built by concatenation, and the two lines \<^verbatim>\<open>password = "s3cr3t"\<close> and
  \<^verbatim>\<open>os.system(user_input)\<close>.
\<close>

definition ex_sql :: string where
  "ex_sql = ''execute(a+b),execute(c+d),execute(e+f),execute(g+h),execute(i+j)''"

definition ex_two_lines :: string where
  "ex_two_lines = ''password = '' @ [dquote] @ ''s3cr3t'' @ [dquote, newline] @ ''os.system(user_input)''"

text \<open>The matches of the four credential patterns, before the environment test.\<close>

definition secret_matches :: "string \<Rightarrow> (nat \<times> string) list" where
  "secret_matches content = all_matches True hardcoded_secret_patterns content"

text \<open>Two assignments of the same shape, one of them to the text of an idiom.\<close>

definition ex_env_literal :: string where
  "ex_env_literal = ''password = '' @ [dquote] @ ''os.environ'' @ [dquote]"

definition ex_plain_literal :: string where
  "ex_plain_literal = ''password = '' @ [dquote] @ ''swordfish!'' @ [dquote]"

text \<open>
  What the lookahead \<^verbatim>\<open>(?!['\"]\w+['\"])\<close> forbids: a quote, one or more word
  characters and a quote at the start of the text.
\<close>

definition is_quote :: "char \<Rightarrow> bool" where
  "is_quote c = (c = squote \<or> c = dquote)"

definition quoted_word_prefix :: "string \<Rightarrow> bool" where
  "quoted_word_prefix s =
     (\<exists>q w q' r. s = q # w @ q' # r \<and> is_quote q \<and> w \<noteq> [] \<and> (\<forall>c\<in>set w. is_word c) \<and> is_quote q')"

definition shell_prefixes :: "string list" where
  "shell_prefixes = [''os.system('', ''subprocess.call('', ''subprocess.Popen('']"

text \<open>
  \<^verbatim>\<open>os.system("ls -l")\<close>, and \<^verbatim>\<open>os.system("ls")\<close> followed on the next line by
  \<^verbatim>\<open>os.system(x)\<close>.
\<close>

definition ex_literal_command :: string where
  "ex_literal_command = ''os.system('' @ [dquote] @ ''ls -l'' @ [dquote] @ '')''"

definition ex_mixed_commands :: string where
  "ex_mixed_commands = ''os.system('' @ [dquote] @ ''ls'' @ [dquote] @ '')'' @ [newline] @ ''os.system(x)''"

text \<open>\<^verbatim>\<open>s.lower()\<close> on code points below 256, and the ASCII lower-case letters.\<close>

definition lower :: "string \<Rightarrow> string" where
  "lower s = map py_lower s"

definition is_ascii_lower :: "char \<Rightarrow> bool" where
  "is_ascii_lower c = (97 \<le> (of_char c :: nat) \<and> (of_char c :: nat) \<le> 122)"

text \<open>
  A content that is exactly one assignment of a non-empty quoted literal to a credential
  name, the name in any casing: the shape the four credential patterns look for.
\<close>

definition credential_names :: "string list" where
  "credential_names = [''password'', ''api_key'', ''apikey'', ''secret'', ''token'']"

definition credential_assignment :: "string \<Rightarrow> bool" where
  "credential_assignment s =
     (\<exists>name ws1 ws2 q lit q'.
        s = name @ ws1 @ ''='' @ ws2 @ q # lit @ [q'] \<and> lower name \<in> set credential_names \<and>
        (\<forall>c\<in>set ws1. is_space c) \<and> (\<forall>c\<in>set ws2. is_space c) \<and>
        is_quote q \<and> is_quote q' \<and> lit \<noteq> [] \<and> (\<forall>c\<in>set lit. \<not> is_quote c))"

text \<open>The vulnerability recorded for a credential match at offset 0.\<close>

definition secret_at_start :: Vulnerability where
  "secret_at_start =
     \<lparr> vuln_type = ''hardcoded_secret'', message = ''Possible hardcoded secret at line 1'',
       location = \<lparr> line = 1, column = 1, position = 0 \<rparr>, level = HIGH_RISK,
       severity = ''high'' \<rparr>"

text \<open>Contents in other casings.\<close>

definition ex_upper_password :: string where
  "ex_upper_password = ''PASSWORD = '' @ [dquote] @ ''x'' @ [dquote]"

definition ex_lower_password :: string where
  "ex_lower_password = ''password = '' @ [dquote] @ ''x'' @ [dquote]"

definition ex_mixed_api_key :: string where
  "ex_mixed_api_key = ''Api_Key = '' @ [dquote] @ ''x'' @ [dquote]"

definition ex_upper_system :: string where
  "ex_upper_system = ''OS.SYSTEM(user_input)''"

definition ex_upper_eval :: string where
  "ex_upper_eval = ''EVAL(x)''"

definition ex_all_upper :: string where
  "ex_all_upper = ''EVAL(X)''"
section \<open>The scan as a sequence of recorded vulnerabilities\<close>

lemma add_vulnerability_fields:
  "file_path (add_vulnerability fm t m l lvl) = file_path fm"
  "language (add_vulnerability fm t m l lvl) = language fm"
  "vulnerabilities (security (add_vulnerability fm t m l lvl)) =
     vulnerabilities (security fm) @ [recorded (t, m, l, lvl)]"
  "security_score (security (add_vulnerability fm t m l lvl)) =
     max 0 (security_score (security fm) - deduction lvl)"
  by (simp_all add: add_vulnerability_def recorded_def Let_def)

lemma add_all_Nil: "add_all fm [] = fm"
  by (simp add: add_all_def)

lemma add_all_Cons:
  "add_all fm ((t, m, l, lvl) # cs) = add_all (add_vulnerability fm t m l lvl) cs"
  by (simp add: add_all_def)

lemma add_all_append: "add_all fm (xs @ ys) = add_all (add_all fm xs) ys"
  by (simp add: add_all_def)

lemma add_all_snoc:
  "add_all fm (cs @ [(t, m, l, lvl)]) = add_vulnerability (add_all fm cs) t m l lvl"
  by (simp add: add_all_def)

lemma add_all_language: "language (add_all fm cs) = language fm"
  by (induction cs arbitrary: fm) (auto simp: add_all_Nil add_all_Cons add_vulnerability_fields)

lemma add_all_file_path: "file_path (add_all fm cs) = file_path fm"
  by (induction cs arbitrary: fm) (auto simp: add_all_Nil add_all_Cons add_vulnerability_fields)

lemma add_all_vulnerabilities:
  "vulnerabilities (security (add_all fm cs)) = vulnerabilities (security fm) @ map recorded cs"
  by (induction cs arbitrary: fm) (auto simp: add_all_Nil add_all_Cons add_vulnerability_fields)

lemma add_all_score:
  "security_score (security (add_all fm cs)) =
     charge (security_score (security fm)) (map call_level cs)"
  by (induction cs arbitrary: fm)
     (auto simp: add_all_Nil add_all_Cons add_vulnerability_fields charge_def call_level_def)

lemma deduction_nonneg: "0 \<le> deduction lvl"
  by (cases lvl) simp_all

lemma sum_deduction_nonneg: "0 \<le> sum_list (map deduction lvls)"
  by (rule sum_list_nonneg) (auto simp: deduction_nonneg)

lemma charge_closed:
  "0 \<le> s \<Longrightarrow> charge s lvls = max 0 (s - sum_list (map deduction lvls))"
proof (induction lvls arbitrary: s)
  case Nil
  then show ?case by (simp add: charge_def)
next
  case (Cons l ls)
  have "charge s (l # ls) = charge (max 0 (s - deduction l)) ls"
    by (simp add: charge_def)
  also have "\<dots> = max 0 (max 0 (s - deduction l) - sum_list (map deduction ls))"
    by (rule Cons.IH) simp
  also have "\<dots> = max 0 (s - sum_list (map deduction (l # ls)))"
    using sum_deduction_nonneg [of ls] deduction_nonneg [of l] by simp
  finally show ?case .
qed

lemma level_recorded: "level (recorded c) = call_level c"
  by (cases c) (simp add: recorded_def call_level_def)

lemma record_match_call:
  "record_match content t msg lvl fm m = add_all fm [match_call content t msg lvl m]"
  by (simp add: record_match_def match_call_def add_all_def Let_def)

lemma foldl_record_match:
  "foldl (record_match content t msg lvl) fm ms = add_all fm (map (match_call content t msg lvl) ms)"
  by (induction ms arbitrary: fm) (simp_all add: add_all_Nil record_match_call add_all_append [symmetric])

lemma foldl_record_match_unless:
  "foldl (\<lambda>fm m. if P m then fm else record_match content t msg lvl fm m) fm ms =
     add_all fm (map (match_call content t msg lvl) (filter (\<lambda>m. \<not> P m) ms))"
  by (induction ms arbitrary: fm) (simp_all add: add_all_Nil record_match_call add_all_append [symmetric])

lemma foldl_patterns:
  assumes "\<And>fm pat. inner fm pat = add_all fm (g pat)"
  shows "foldl inner fm pats = add_all fm (concat (map g pats))"
  by (induction pats arbitrary: fm) (simp_all add: add_all_Nil assms add_all_append)


lemma map_concat_matches:
  "concat (map (\<lambda>pat. map f (g pat)) pats) = map f (concat (map g pats))"
  by (induction pats) simp_all

lemma check_for_os_command_injection_calls:
  "check_for_os_command_injection fm content = add_all fm (os_calls content)"
  unfolding check_for_os_command_injection_def os_calls_def all_matches_def
  by (subst foldl_patterns [where g = "\<lambda>pat. map (match_call content ''os_command_injection''
        ''Possible command injection at line '' HIGH_RISK) (finditer False pat content)"])
     (simp_all add: foldl_record_match map_concat_matches)

lemma check_for_sql_injection_calls:
  "check_for_sql_injection fm content = add_all fm (sql_calls content)"
  unfolding check_for_sql_injection_def sql_calls_def all_matches_def
  by (subst foldl_patterns [where g = "\<lambda>pat. map (match_call content ''sql_injection''
        ''Possible SQL injection at line '' CRITICAL) (finditer False pat content)"])
     (simp_all add: foldl_record_match map_concat_matches)

lemma check_for_insecure_deserialization_calls:
  "check_for_insecure_deserialization fm content = add_all fm (deserialization_calls content)"
  unfolding check_for_insecure_deserialization_def deserialization_calls_def all_matches_def
  by (subst foldl_patterns [where g = "\<lambda>pat. map (match_call content ''insecure_deserialization''
        ''Insecure deserialization at line '' HIGH_RISK) (finditer False pat content)"])
     (simp_all add: foldl_record_match map_concat_matches)

lemma check_for_hardcoded_secrets_calls:
  "check_for_hardcoded_secrets fm content = add_all fm (secret_calls content)"
  unfolding check_for_hardcoded_secrets_def secret_calls_def all_matches_def
  by (subst foldl_patterns [where g = "\<lambda>pat. map (match_call content ''hardcoded_secret''
        ''Possible hardcoded secret at line '' HIGH_RISK)
        (filter (\<lambda>m. \<not> looks_like_env (snd m)) (finditer True pat content))"])
     (simp_all add: foldl_record_match_unless map_concat_matches filter_concat comp_def)

lemma check_for_eval_calls: "check_for_eval fm content = add_all fm (eval_calls content)"
  by (simp add: check_for_eval_def eval_calls_def foldl_record_match)

lemma check_for_document_write_calls:
  "check_for_document_write fm content = add_all fm (document_write_calls content)"
  by (simp add: check_for_document_write_def document_write_calls_def foldl_record_match)

lemma check_for_innerhtml_calls:
  "check_for_innerhtml fm content = add_all fm (innerhtml_calls content)"
  by (simp add: check_for_innerhtml_def innerhtml_calls_def foldl_record_match)

lemma analyze_file_calls:
  "analyze_file fm content ast_data = add_all fm (file_calls (language fm) content)"
  by (simp add: analyze_file_def file_calls_def analyze_python_security_def
      analyze_js_security_def Let_def add_all_Nil add_all_append
      check_for_os_command_injection_calls check_for_sql_injection_calls
      check_for_insecure_deserialization_calls check_for_hardcoded_secrets_calls
      check_for_eval_calls check_for_document_write_calls check_for_innerhtml_calls
      del: insert_iff)


lemma sum_list_level_recorded:
  "(\<Sum>v\<leftarrow>map recorded cs. deduction (level v)) = sum_list (map deduction (map call_level cs))"
  by (simp add: comp_def level_recorded)

lemma charge_mset:
  assumes "0 \<le> s" and "mset ls = mset ls'"
  shows "charge s ls = charge s ls'"
proof -
  have "sum_list (map deduction ls) = sum_mset (image_mset deduction (mset ls))"
    by (metis mset_map sum_mset_sum_list)
  also have "\<dots> = sum_list (map deduction ls')"
    unfolding assms(2) by (metis mset_map sum_mset_sum_list)
  finally show ?thesis
    using assms(1) by (simp add: charge_closed)
qed

lemma charge_bounds: "0 \<le> s \<Longrightarrow> 0 \<le> charge s ls \<and> charge s ls \<le> s"
  using sum_deduction_nonneg [of ls] by (simp add: charge_closed)

lemma charge_snoc: "charge s (ls @ [l]) = max 0 (charge s ls - deduction l)"
  by (simp add: charge_def)

section \<open>Resolving an offset\<close>

lemma split_on_nonempty: "split_on c s \<noteq> []"
  by (induction s) (auto split: list.splits)

lemma length_split_on: "length (split_on c s) = Suc (count_list s c)"
  using split_on_nonempty [of c] by (induction s) (auto split: list.splits)

lemma split_on_snoc:
  "split_on c (s @ [x]) =
     (if x = c then split_on c s @ [[]]
      else butlast (split_on c s) @ [last (split_on c s) @ [x]])"
proof (induction s)
  case Nil
  then show ?case by simp
next
  case (Cons y ys)
  obtain seg segs where seg: "split_on c ys = seg # segs"
    using split_on_nonempty [of c ys] by (cases "split_on c ys") auto
  show ?case
    using Cons seg by (cases "segs = []") (auto split: list.splits)
qed

lemma length_last_split_on:
  "length (last (split_on c s)) = length (takeWhile (\<lambda>x. x \<noteq> c) (rev s))"
  by (induction s rule: rev_induct) (simp_all add: split_on_snoc)

lemma slice_to_nonneg: "0 \<le> p \<Longrightarrow> slice_to s p = take (nat p) s"
  by (simp add: slice_to_def)

section \<open>Facts about the matcher\<close>

lemma first_some_single [simp]: "first_some f [x] = f x"
  by (simp split: option.splits)

declare first_some.simps(2) [simp del]

lemma cset_match_Word [simp]: "cset_match ic Word = is_word"
  by (rule ext) simp

lemma cset_match_Space [simp]: "cset_match ic Space = is_space"
  by (rule ext) simp

lemma first_some_None_iff: "first_some f xs = None \<longleftrightarrow> (\<forall>x\<in>set xs. f x = None)"
  by (induction xs) (auto simp: first_some.simps split: option.splits)

lemma first_some_not_None_iff: "first_some f xs \<noteq> None \<longleftrightarrow> (\<exists>x\<in>set xs. f x \<noteq> None)"
  by (simp add: first_some_None_iff)

lemma first_some_SomeD: "first_some f xs = Some y \<Longrightarrow> \<exists>x\<in>set xs. f x = Some y"
  by (induction xs) (auto simp: first_some.simps split: option.splits)

lemma star_ends_set: "r \<in> set (star_ends p s) \<longleftrightarrow> (\<exists>w. s = w @ r \<and> (\<forall>c\<in>set w. p c))"
proof (induction s)
  case Nil
  then show ?case by auto
next
  case (Cons x xs)
  show ?case
  proof
    assume "r \<in> set (star_ends p (x # xs))"
    then consider "r = x # xs" | "p x" "r \<in> set (star_ends p xs)"
      by (auto split: if_splits)
    then show "\<exists>w. x # xs = w @ r \<and> (\<forall>c\<in>set w. p c)"
    proof cases
      case 1
      then show ?thesis by (intro exI [of _ "[]"]) simp
    next
      case 2
      then obtain w where "xs = w @ r" "\<forall>c\<in>set w. p c"
        using Cons.IH by blast
      with 2 show ?thesis by (intro exI [of _ "x # w"]) simp
    qed
  next
    assume "\<exists>w. x # xs = w @ r \<and> (\<forall>c\<in>set w. p c)"
    then obtain w where w: "x # xs = w @ r" "\<forall>c\<in>set w. p c"
      by blast
    show "r \<in> set (star_ends p (x # xs))"
    proof (cases w)
      case Nil
      with w show ?thesis by auto
    next
      case (Cons y ys)
      with w have "p x" "xs = ys @ r" "\<forall>c\<in>set ys. p c"
        by auto
      then show ?thesis
        using Cons.IH by auto
    qed
  qed
qed

lemma match_items_Nil: "match_items ic [] s = Some s"
  by (simp add: match_items_def)

lemma match_items_lit:
  "match_items False (Atom (One (Lit c)) # rest) s =
     (case s of [] \<Rightarrow> None | x # xs \<Rightarrow> if x = c then match_items False rest xs else None)"
  by (simp add: match_items_def split: list.splits)

lemma match_items_lits:
  "match_items False (lits pre @ rest) s =
     (if startswith s pre then match_items False rest (drop (length pre) s) else None)"
proof (induction pre arbitrary: s)
  case Nil
  then show ?case by (simp add: lits_def startswith_def)
next
  case (Cons c pre)
  have unfold: "lits (c # pre) @ rest = Atom (One (Lit c)) # (lits pre @ rest)"
    by (simp add: lits_def)
  show ?case
    unfolding unfold match_items_lit
    by (cases s) (auto simp: Cons.IH startswith_def)
qed

lemma match_items_lookahead:
  "match_items ic (NegLookahead as # rest) s =
     (if match_atoms ic as s = None then match_items ic rest s else None)"
  by (simp add: match_items_def)

lemma quoted_word_lookahead:
  "match_atoms False [One quote, Plus Word, One quote] s \<noteq> None \<longleftrightarrow> quoted_word_prefix s"
proof
  assume m: "match_atoms False [One quote, Plus Word, One quote] s \<noteq> None"
  then obtain q t where s: "s = q # t" and q: "is_quote q"
    by (cases s) (auto simp: match_atoms_def is_quote_def split: if_splits)
  from m s q obtain x xs where t: "t = x # xs" and x: "is_word x"
    by (cases t) (auto simp: match_atoms_def is_quote_def split: if_splits)
  from m s q t x have "first_some (match_with (atom_ends False) [One quote])
      (star_ends is_word xs) \<noteq> None"
    by (auto simp: match_atoms_def is_quote_def cong: if_cong)
  then obtain r where r: "r \<in> set (star_ends is_word xs)"
      and last: "match_with (atom_ends False) [One quote] r \<noteq> None"
    by (auto simp: first_some_None_iff)
  from r obtain w where w: "xs = w @ r" "\<forall>c\<in>set w. is_word c"
    by (auto simp: star_ends_set)
  from last obtain q' r' where r': "r = q' # r'" "is_quote q'"
    by (cases r) (auto simp: is_quote_def split: if_splits)
  have "s = q # (x # w) @ q' # r'"
    using s t w r' by simp
  moreover have "\<forall>c\<in>set (x # w). is_word c"
    using x w by simp
  ultimately show "quoted_word_prefix s"
    unfolding quoted_word_prefix_def using q r' by blast
next
  assume "quoted_word_prefix s"
  then obtain q w q' r where s: "s = q # w @ q' # r" and q: "is_quote q" "is_quote q'"
      and w: "w \<noteq> []" "\<forall>c\<in>set w. is_word c"
    unfolding quoted_word_prefix_def by blast
  from w obtain x ws where ws: "w = x # ws"
    by (cases w) auto
  have mem: "q' # r \<in> set (star_ends is_word (ws @ q' # r))"
    using w ws by (auto simp: star_ends_set)
  have closing: "match_with (atom_ends False) [One quote] (q' # r) \<noteq> None"
    using q by (auto simp: is_quote_def)
  have "\<exists>x\<in>set (star_ends is_word (ws @ q' # r)).
      match_with (atom_ends False) [One quote] x \<noteq> None"
    using closing by (intro bexI [where x = "q' # r"] mem)
  then have "first_some (match_with (atom_ends False) [One quote])
      (star_ends is_word (ws @ q' # r)) \<noteq> None"
    by (simp only: first_some_not_None_iff)
  then show "match_atoms False [One quote, Plus Word, One quote] s \<noteq> None"
    using s q w ws by (auto simp: match_atoms_def is_quote_def)
qed

section \<open>Soundness of the scan for matches\<close>

lemma match_len_le: "match_len ic pat s = Some n \<Longrightarrow> n \<le> length s"
  by (auto simp: match_len_def split: option.splits)

lemma drop_Cons_shift: "Suc off \<le> p \<Longrightarrow> drop (p - off) (x # xs) = drop (p - Suc off) xs"
proof -
  assume "Suc off \<le> p"
  then have "p - off = Suc (p - Suc off)"
    by arith
  then show ?thesis
    by simp
qed

lemma finditer_from_sound:
  "(p, g) \<in> set (finditer_from ic pat off s) \<Longrightarrow>
   off \<le> p \<and> match_len ic pat (drop (p - off) s) = Some (length g) \<and>
   g = take (length g) (drop (p - off) s)"
proof (induction ic pat off s rule: finditer_from.induct)
  case (1 ic pat off s)
  show ?case
  proof (cases "match_len ic pat s")
    case None
    with "1.prems" obtain x xs where s: "s = x # xs"
        and rec: "(p, g) \<in> set (finditer_from ic pat (Suc off) xs)"
      by (subst (asm) finditer_from.simps) (auto split: list.splits)
    from "1.IH"(1) [OF None s rec] s show ?thesis
      by (auto simp: drop_Cons_shift)
  next
    case (Some n)
    show ?thesis
    proof (cases n)
      case 0
      from "1.prems" Some 0 consider "p = off" "g = []"
        | x xs where "s = x # xs" "(p, g) \<in> set (finditer_from ic pat (Suc off) xs)"
        by (subst (asm) finditer_from.simps) (auto split: list.splits)
      then show ?thesis
      proof cases
        case 1
        then show ?thesis using Some 0 by simp
      next
        case 2
        from "1.IH"(2) [OF Some 0 2(1) 2(2)] 2(1) show ?thesis
          by (auto simp: drop_Cons_shift)
      qed
    next
      case (Suc k)
      have le: "Suc k \<le> length s"
        using Some Suc match_len_le by blast
      from "1.prems" Some Suc consider "p = off" "g = take (Suc k) s"
        | "(p, g) \<in> set (finditer_from ic pat (off + Suc k) (drop (Suc k) s))"
        by (subst (asm) finditer_from.simps) auto
      then show ?thesis
      proof cases
        case 1
        then show ?thesis using Some Suc le by (simp add: min_absorb2)
      next
        case 2
        from "1.IH"(3) [OF Some Suc 2]
        have ih: "off + Suc k \<le> p"
          "match_len ic pat (drop (p - (off + Suc k)) (drop (Suc k) s)) = Some (length g)"
          "g = take (length g) (drop (p - (off + Suc k)) (drop (Suc k) s))"
          by blast+
        have "p - (off + Suc k) + Suc k = p - off"
          using ih(1) by simp
        then have "drop (p - (off + Suc k)) (drop (Suc k) s) = drop (p - off) s"
          by (simp only: drop_drop)
        with ih show ?thesis by simp
      qed
    qed
  qed
qed

lemma finditer_sound:
  "(p, g) \<in> set (finditer ic pat content) \<Longrightarrow>
   match_len ic pat (drop p content) = Some (length g) \<and> g = take (length g) (drop p content)"
  using finditer_from_sound [of p g ic pat 0 content] by (simp add: finditer_def)

lemma match_len_SomeD: "match_len ic pat s = Some n \<Longrightarrow> \<exists>r. match_items ic pat s = Some r"
  by (auto simp: match_len_def split: option.splits)

section \<open>Lower-casing\<close>

lemma of_char_py_lower:
  "(of_char (py_lower c) :: nat) =
     (if (65 \<le> (of_char c :: nat) \<and> (of_char c :: nat) \<le> 90) \<or>
         (192 \<le> (of_char c :: nat) \<and> (of_char c :: nat) \<le> 222 \<and> (of_char c :: nat) \<noteq> 215)
      then of_char c + 32 else of_char c)"
proof (cases "(65 \<le> (of_char c :: nat) \<and> (of_char c :: nat) \<le> 90) \<or>
         (192 \<le> (of_char c :: nat) \<and> (of_char c :: nat) \<le> 222 \<and> (of_char c :: nat) \<noteq> 215)")
  case True
  then have "(of_char c :: nat) + 32 < 256"
    by arith
  then have "((of_char c :: nat) + 32) mod 256 = of_char c + 32"
    by (rule mod_less)
  with True show ?thesis
    by (simp only: py_lower_def Let_def if_True of_char_of)
next
  case False
  then show ?thesis
    by (simp only: py_lower_def Let_def if_False)
qed

lemma py_lower_cases:
  obtains (upper) "65 \<le> (of_char c :: nat)" "(of_char c :: nat) \<le> 90"
      "(of_char (py_lower c) :: nat) = of_char c + 32"
    | (latin_low) "192 \<le> (of_char c :: nat)" "(of_char c :: nat) \<le> 214"
      "(of_char (py_lower c) :: nat) = of_char c + 32"
    | (latin_high) "216 \<le> (of_char c :: nat)" "(of_char c :: nat) \<le> 222"
      "(of_char (py_lower c) :: nat) = of_char c + 32"
    | (same) "py_lower c = c"
proof (cases "(65 \<le> (of_char c :: nat) \<and> (of_char c :: nat) \<le> 90) \<or>
         (192 \<le> (of_char c :: nat) \<and> (of_char c :: nat) \<le> 222 \<and> (of_char c :: nat) \<noteq> 215)")
  case True
  then have shifted: "(of_char (py_lower c) :: nat) = of_char c + 32"
    by (simp only: of_char_py_lower if_True)
  from True consider "65 \<le> (of_char c :: nat) \<and> (of_char c :: nat) \<le> 90"
    | "192 \<le> (of_char c :: nat) \<and> (of_char c :: nat) \<le> 214"
    | "216 \<le> (of_char c :: nat) \<and> (of_char c :: nat) \<le> 222"
    by arith
  then show ?thesis
    using shifted upper latin_low latin_high by cases blast+
next
  case False
  then have "py_lower c = c"
    by (simp only: py_lower_def Let_def if_False)
  then show ?thesis
    by (rule same)
qed

lemma py_lower_idem: "py_lower (py_lower c) = py_lower c"
proof (cases c rule: py_lower_cases)
  case upper
  then have "\<not> ((65 \<le> (of_char (py_lower c) :: nat) \<and> (of_char (py_lower c) :: nat) \<le> 90) \<or>
      (192 \<le> (of_char (py_lower c) :: nat) \<and> (of_char (py_lower c) :: nat) \<le> 222 \<and>
       (of_char (py_lower c) :: nat) \<noteq> 215))"
    by simp
  then show ?thesis
    by (simp only: py_lower_def [of "py_lower c"] Let_def if_False)
next
  case latin_low
  then have "\<not> ((65 \<le> (of_char (py_lower c) :: nat) \<and> (of_char (py_lower c) :: nat) \<le> 90) \<or>
      (192 \<le> (of_char (py_lower c) :: nat) \<and> (of_char (py_lower c) :: nat) \<le> 222 \<and>
       (of_char (py_lower c) :: nat) \<noteq> 215))"
    by simp
  then show ?thesis
    by (simp only: py_lower_def [of "py_lower c"] Let_def if_False)
next
  case latin_high
  then have "\<not> ((65 \<le> (of_char (py_lower c) :: nat) \<and> (of_char (py_lower c) :: nat) \<le> 90) \<or>
      (192 \<le> (of_char (py_lower c) :: nat) \<and> (of_char (py_lower c) :: nat) \<le> 222 \<and>
       (of_char (py_lower c) :: nat) \<noteq> 215))"
    by simp
  then show ?thesis
    by (simp only: py_lower_def [of "py_lower c"] Let_def if_False)
next
  case same
  then show ?thesis by simp
qed

lemma is_word_py_lower: "is_word (py_lower c) = is_word c"
proof (cases c rule: py_lower_cases)
  case upper
  then show ?thesis by (simp add: is_word_def Let_def)
next
  case latin_low
  then show ?thesis by (simp add: is_word_def Let_def)
next
  case latin_high
  then show ?thesis by (simp add: is_word_def Let_def)
next
  case same
  then show ?thesis by simp
qed

lemma is_space_py_lower: "is_space (py_lower c) = is_space c"
proof (cases c rule: py_lower_cases)
  case upper
  then show ?thesis by (simp add: is_space_def Let_def)
next
  case latin_low
  then show ?thesis by (simp add: is_space_def Let_def)
next
  case latin_high
  then show ?thesis by (simp add: is_space_def Let_def)
next
  case same
  then show ?thesis by simp
qed

lemma of_char_newline: "(of_char d :: nat) = 10 \<longleftrightarrow> d = newline"
proof -
  have "(of_char newline :: nat) = 10"
    by simp
  then show ?thesis
    by (metis of_char_eq_iff)
qed

lemma py_lower_eq_newline: "py_lower c = newline \<longleftrightarrow> c = newline"
proof (cases c rule: py_lower_cases)
  case upper
  then have "(of_char (py_lower c) :: nat) \<noteq> 10" "(of_char c :: nat) \<noteq> 10"
    by simp_all
  then show ?thesis by (simp only: of_char_newline)
next
  case latin_low
  then have "(of_char (py_lower c) :: nat) \<noteq> 10" "(of_char c :: nat) \<noteq> 10"
    by simp_all
  then show ?thesis by (simp only: of_char_newline)
next
  case latin_high
  then have "(of_char (py_lower c) :: nat) \<noteq> 10" "(of_char c :: nat) \<noteq> 10"
    by simp_all
  then show ?thesis by (simp only: of_char_newline)
next
  case same
  then show ?thesis by simp
qed

section \<open>Matching under IGNORECASE sees only the lower-cased text\<close>

lemma cset_match_lower: "cset_match True cs (py_lower x) = cset_match True cs x"
  by (cases cs) (simp_all add: py_lower_idem is_word_py_lower is_space_py_lower)

lemma star_ends_map:
  assumes "\<And>x. p (f x) = p x"
  shows "star_ends p (map f s) = map (map f) (star_ends p s)"
  by (induction s) (simp_all add: assms)

lemma atom_ends_lower: "atom_ends True a (lower s) = map lower (atom_ends True a s)"
proof -
  have star: "star_ends (cset_match True c) (map py_lower t) =
      map (map py_lower) (star_ends (cset_match True c) t)" for c t
    by (rule star_ends_map) (rule cset_match_lower)
  show ?thesis
    unfolding lower_def
    by (cases a; cases s) (simp_all add: cset_match_lower star del: cset_match.simps)
qed

lemma first_some_map:
  assumes "\<And>x. f' (h x) = map_option h' (f x)"
  shows "first_some f' (map h xs) = map_option h' (first_some f xs)"
  by (induction xs) (auto simp: first_some.simps assms split: option.splits)

lemma match_atoms_lower: "match_atoms True as (lower s) = map_option lower (match_atoms True as s)"
  unfolding match_atoms_def
proof (induction as arbitrary: s)
  case Nil
  then show ?case by simp
next
  case (Cons a as)
  show ?case
    by (simp only: match_with.simps atom_ends_lower)
       (rule first_some_map, rule Cons.IH)
qed

lemma item_ends_lower: "item_ends True i (lower s) = map lower (item_ends True i s)"
  by (cases i) (simp_all add: atom_ends_lower match_atoms_lower)

lemma match_items_lower: "match_items True pat (lower s) = map_option lower (match_items True pat s)"
  unfolding match_items_def
proof (induction pat arbitrary: s)
  case Nil
  then show ?case by simp
next
  case (Cons i pat)
  show ?case
    by (simp only: match_with.simps item_ends_lower)
       (rule first_some_map, rule Cons.IH)
qed

lemma lower_simps:
  "lower [] = []"
  "lower (x # xs) = py_lower x # lower xs"
  "length (lower s) = length s"
  "take n (lower s) = lower (take n s)"
  "drop n (lower s) = lower (drop n s)"
  by (simp_all add: lower_def take_map drop_map)

lemma match_len_lower: "match_len True pat (lower s) = match_len True pat s"
  by (cases "match_items True pat s") (simp_all add: match_len_def match_items_lower lower_simps)

lemma finditer_from_lower:
  "finditer_from True pat off (lower s) =
     map (\<lambda>m. (fst m, lower (snd m))) (finditer_from True pat off s)"
proof (induction "length s" arbitrary: s off rule: less_induct)
  case less
  show ?case
  proof (cases "match_len True pat s")
    case None
    show ?thesis
    proof (cases s)
      case Nil
      with None show ?thesis
        by (simp add: finditer_from.simps [of True pat off "[]"] lower_simps)
    next
      case (Cons x xs)
      have ih: "finditer_from True pat (Suc off) (lower xs) =
          map (\<lambda>m. (fst m, lower (snd m))) (finditer_from True pat (Suc off) xs)"
        by (rule less) (simp add: Cons)
      have low: "match_len True pat (py_lower x # lower xs) = None"
        using None match_len_lower [of pat s] by (simp add: Cons lower_simps)
      show ?thesis
        using None ih low
        by (simp add: Cons lower_simps finditer_from.simps [of True pat off "x # xs"]
            finditer_from.simps [of True pat off "py_lower x # lower xs"])
    qed
  next
    case (Some n)
    have low: "match_len True pat (lower s) = Some n"
      using Some by (simp add: match_len_lower)
    show ?thesis
    proof (cases n)
      case 0
      show ?thesis
      proof (cases s)
        case Nil
        with Some 0 low show ?thesis
          by (simp add: lower_simps finditer_from.simps [of True pat off "[]"])
      next
        case (Cons x xs)
        have ih: "finditer_from True pat (Suc off) (lower xs) =
            map (\<lambda>m. (fst m, lower (snd m))) (finditer_from True pat (Suc off) xs)"
          by (rule less) (simp add: Cons)
        show ?thesis
          using Some 0 low ih
          by (simp add: Cons lower_simps finditer_from.simps [of True pat off "x # xs"]
              finditer_from.simps [of True pat off "py_lower x # lower xs"])
      qed
    next
      case (Suc k)
      have "Suc k \<le> length s"
        using Some Suc match_len_le by blast
      then have shorter: "length (drop (Suc k) s) < length s"
        by simp
      have ih: "finditer_from True pat (off + Suc k) (lower (drop (Suc k) s)) =
          map (\<lambda>m. (fst m, lower (snd m))) (finditer_from True pat (off + Suc k) (drop (Suc k) s))"
        by (rule less) (rule shorter)
      have "finditer_from True pat off (lower s) =
          (off, take (Suc k) (lower s)) # finditer_from True pat (off + Suc k) (drop (Suc k) (lower s))"
        using low Suc by (subst finditer_from.simps) simp
      also have "\<dots> = (off, lower (take (Suc k) s)) #
          map (\<lambda>m. (fst m, lower (snd m))) (finditer_from True pat (off + Suc k) (drop (Suc k) s))"
        by (simp only: lower_simps ih)
      also have "\<dots> = map (\<lambda>m. (fst m, lower (snd m))) (finditer_from True pat off s)"
        using Some Suc by (subst (2) finditer_from.simps) simp
      finally show ?thesis .
    qed
  qed
qed

lemma finditer_lower:
  "map fst (finditer True pat (lower content)) = map fst (finditer True pat content)"
  by (simp add: finditer_def finditer_from_lower comp_def)

section \<open>Substrings, environment idioms and lower-casing\<close>

lemma startswith_iff: "startswith s p \<longleftrightarrow> (\<exists>b. s = p @ b)"
  unfolding startswith_def by (metis append_eq_conv_conj append_take_drop_id)

lemma contains_iff: "contains sub s \<longleftrightarrow> (\<exists>a b. s = a @ sub @ b)"
proof (induction s)
  case Nil
  then show ?case by auto
next
  case (Cons x xs)
  show ?case
  proof
    assume "contains sub (x # xs)"
    then consider "startswith (x # xs) sub" | "contains sub xs"
      by auto
    then show "\<exists>a b. x # xs = a @ sub @ b"
    proof cases
      case 1
      then obtain b where "x # xs = sub @ b"
        using startswith_iff by blast
      then have "x # xs = [] @ sub @ b" by simp
      then show ?thesis by blast
    next
      case 2
      then obtain a b where "xs = a @ sub @ b"
        using Cons.IH by blast
      then have "x # xs = (x # a) @ sub @ b" by simp
      then show ?thesis by blast
    qed
  next
    assume "\<exists>a b. x # xs = a @ sub @ b"
    then obtain a b where ab: "x # xs = a @ sub @ b"
      by blast
    show "contains sub (x # xs)"
    proof (cases a)
      case Nil
      with ab have "startswith (x # xs) sub"
        using startswith_iff by auto
      then show ?thesis by simp
    next
      case (Cons y ys)
      with ab have "xs = ys @ sub @ b" by simp
      then have "contains sub xs"
        using Cons.IH by blast
      then show ?thesis by simp
    qed
  qed
qed

lemma contains_substring: "contains sub (take n (drop p s)) \<Longrightarrow> contains sub s"
proof -
  assume "contains sub (take n (drop p s))"
  then obtain a b where "take n (drop p s) = a @ sub @ b"
    using contains_iff by blast
  then have "s = (take p s @ a) @ sub @ (b @ drop n (drop p s))"
    by (metis append.assoc append_take_drop_id)
  then show ?thesis
    using contains_iff by blast
qed

lemma looks_like_env_substring: "looks_like_env (take n (drop p s)) \<Longrightarrow> looks_like_env s"
  unfolding looks_like_env_def using contains_substring by blast

lemma contains_lower: "contains sub s \<Longrightarrow> contains (lower sub) (lower s)"
proof -
  assume "contains sub s"
  then obtain a b where "s = a @ sub @ b"
    using contains_iff by blast
  then have "lower s = lower a @ lower sub @ lower b"
    by (simp add: lower_def)
  then show ?thesis
    using contains_iff by blast
qed

lemma lower_idioms: "lower ''os.environ'' = ''os.environ''" "lower ''process.env'' = ''process.env''"
  by (simp_all add: lower_def py_lower_def)

lemma looks_like_env_lower: "looks_like_env s \<Longrightarrow> looks_like_env (lower s)"
  unfolding looks_like_env_def using contains_lower lower_idioms by metis

lemma split_on_lower: "split_on newline (lower s) = map lower (split_on newline s)"
proof (induction s)
  case Nil
  then show ?case by (simp add: lower_simps)
next
  case (Cons x xs)
  obtain seg segs where "split_on newline xs = seg # segs"
    using split_on_nonempty [of newline xs] by (cases "split_on newline xs") auto
  with Cons show ?case
    by (simp add: lower_simps py_lower_eq_newline)
qed

lemma get_line_number_lower: "get_line_number (lower content) p = get_line_number content p"
proof -
  have slice: "slice_to (lower content) p = lower (slice_to content p)"
    by (simp add: slice_to_def lower_simps)
  have "last (map lower (split_on newline (slice_to content p))) =
      lower (last (split_on newline (slice_to content p)))"
    by (rule last_map) (rule split_on_nonempty)
  then show ?thesis
    by (simp add: get_line_number_def Let_def slice split_on_lower lower_simps)
qed

lemma match_call_lower:
  "match_call (lower content) t msg lvl m = match_call content t msg lvl (fst m, g)"
  by (simp add: match_call_def get_line_number_lower)

lemma secret_match_substring:
  assumes "m \<in> set (all_matches True hardcoded_secret_patterns content)"
  shows "\<exists>n p. snd m = take n (drop p content)"
proof -
  obtain p g where m: "m = (p, g)"
    by (cases m)
  with assms obtain pat where "(p, g) \<in> set (finditer True pat content)"
    by (auto simp: all_matches_def)
  then have "g = take (length g) (drop p content)"
    using finditer_sound by blast
  with m show ?thesis
    by auto
qed

lemma secret_matches_kept:
  assumes "\<not> looks_like_env content"
  shows "filter (\<lambda>m. \<not> looks_like_env (snd m)) (all_matches True hardcoded_secret_patterns content) =
    all_matches True hardcoded_secret_patterns content"
proof -
  have "\<not> looks_like_env (snd m)"
    if "m \<in> set (all_matches True hardcoded_secret_patterns content)" for m
    using secret_match_substring [OF that] assms looks_like_env_substring by metis
  then show ?thesis
    by (simp add: filter_id_conv)
qed

lemma all_matches_lower:
  "map fst (all_matches True pats (lower content)) = map fst (all_matches True pats content)"
  by (induction pats) (simp_all add: all_matches_def finditer_lower)

lemma secret_calls_lower:
  assumes "\<not> looks_like_env (lower content)"
  shows "secret_calls content = secret_calls (lower content)"
proof -
  let ?call = "\<lambda>c. match_call c ''hardcoded_secret'' ''Possible hardcoded secret at line '' HIGH_RISK"
  have plain: "\<not> looks_like_env content"
    using assms looks_like_env_lower by blast
  have by_offset: "?call (lower content) m = ?call (lower content) (fst m, [])" for m
    by (simp add: match_call_def)
  have "secret_calls content =
      map (?call content) (all_matches True hardcoded_secret_patterns content)"
    by (simp only: secret_calls_def secret_matches_kept [OF plain])
  also have "\<dots> = map (\<lambda>m. ?call (lower content) (fst m, []))
      (all_matches True hardcoded_secret_patterns content)"
    by (simp add: match_call_def get_line_number_lower)
  also have "\<dots> = map (\<lambda>p. ?call (lower content) (p, []))
      (map fst (all_matches True hardcoded_secret_patterns content))"
    by (simp add: comp_def)
  also have "\<dots> = map (\<lambda>p. ?call (lower content) (p, []))
      (map fst (all_matches True hardcoded_secret_patterns (lower content)))"
    by (simp only: all_matches_lower)
  also have "\<dots> = map (\<lambda>m. ?call (lower content) (fst m, []))
      (all_matches True hardcoded_secret_patterns (lower content))"
    by (simp add: comp_def)
  also have "\<dots> = map (?call (lower content))
      (all_matches True hardcoded_secret_patterns (lower content))"
    using by_offset by simp
  also have "\<dots> = secret_calls (lower content)"
    by (simp only: secret_calls_def secret_matches_kept [OF assms])
  finally show ?thesis .
qed

section \<open>Characters that have no case\<close>

lemma py_lower_eq_uncased:
  assumes "(of_char k :: nat) < 97"
  shows "py_lower x = k \<longleftrightarrow> x = k \<and> py_lower k = k"
proof (cases x rule: py_lower_cases)
  case upper
  then have "(of_char (py_lower x) :: nat) \<noteq> of_char k"
    using assms by simp
  then have ne: "py_lower x \<noteq> k"
    by auto
  have "py_lower x \<noteq> x"
    using upper by (metis add_cancel_right_right zero_neq_numeral)
  with ne show ?thesis
    by auto
next
  case latin_low
  then have "(of_char (py_lower x) :: nat) \<noteq> of_char k"
    using assms by simp
  then have ne: "py_lower x \<noteq> k"
    by auto
  have "py_lower x \<noteq> x"
    using latin_low by (metis add_cancel_right_right zero_neq_numeral)
  with ne show ?thesis
    by auto
next
  case latin_high
  then have "(of_char (py_lower x) :: nat) \<noteq> of_char k"
    using assms by simp
  then have ne: "py_lower x \<noteq> k"
    by auto
  have "py_lower x \<noteq> x"
    using latin_high by (metis add_cancel_right_right zero_neq_numeral)
  with ne show ?thesis
    by auto
next
  case same
  then show ?thesis by auto
qed

lemma py_lower_fixed:
  "py_lower squote = squote" "py_lower dquote = dquote" "py_lower (CHR ''='') = CHR ''=''"
  "py_lower (CHR ''_'') = CHR ''_''"
  by (simp_all add: py_lower_def)

lemma py_lower_eq_fixed:
  "py_lower x = squote \<longleftrightarrow> x = squote"
  "py_lower x = dquote \<longleftrightarrow> x = dquote"
  "py_lower x = CHR ''='' \<longleftrightarrow> x = CHR ''=''"
  "py_lower x = CHR ''_'' \<longleftrightarrow> x = CHR ''_''"
  by (simp_all add: py_lower_eq_uncased py_lower_fixed)

lemma cset_match_quote: "cset_match True quote x = is_quote x"
  by (simp add: is_quote_def py_lower_fixed py_lower_eq_fixed)

lemma cset_match_not_quote: "cset_match True not_quote x = (\<not> is_quote x)"
  by (simp add: is_quote_def py_lower_fixed py_lower_eq_fixed)

lemma cset_match_equals: "cset_match True (Lit (CHR ''='')) x = (x = CHR ''='')"
  by (simp add: py_lower_fixed py_lower_eq_fixed)

lemma not_space_quote: "is_quote q \<Longrightarrow> \<not> is_space q"
  by (auto simp: is_quote_def is_space_def)

lemma not_space_equals: "\<not> is_space (CHR ''='')"
  by (simp add: is_space_def)

section \<open>Matches that succeed on the greedy path\<close>

lemma match_items_one:
  "match_items ic (Atom (One c) # rest) (x # t) =
     (if cset_match ic c x then match_items ic rest t else None)"
  by (simp add: match_items_def)

lemma star_ends_greedy:
  assumes "\<forall>x\<in>set w. p x" and "t = [] \<or> \<not> p (hd t)"
  shows "\<exists>others. star_ends p (w @ t) = t # others"
  using assms
proof (induction w)
  case Nil
  then show ?case by (cases t) auto
next
  case (Cons x w)
  then obtain others where "star_ends p (w @ t) = t # others"
    by auto
  with Cons.prems show ?case by simp
qed

lemma first_some_head: "f x = Some y \<Longrightarrow> first_some f (x # xs) = Some y"
  by (simp add: first_some.simps)

lemma match_items_star:
  assumes "\<forall>x\<in>set w. cset_match ic c x" and "t = [] \<or> \<not> cset_match ic c (hd t)"
    and "match_items ic rest t = Some r"
  shows "match_items ic (Atom (Star c) # rest) (w @ t) = Some r"
proof -
  obtain others where "star_ends (cset_match ic c) (w @ t) = t # others"
    using star_ends_greedy [OF assms(1,2)] by blast
  then show ?thesis
    using assms(3) by (simp add: match_items_def first_some_head)
qed

lemma match_items_plus:
  assumes "cset_match ic c x" and "\<forall>x\<in>set w. cset_match ic c x"
    and "t = [] \<or> \<not> cset_match ic c (hd t)" and "match_items ic rest t = Some r"
  shows "match_items ic (Atom (Plus c) # rest) (x # w @ t) = Some r"
proof -
  obtain others where "star_ends (cset_match ic c) (w @ t) = t # others"
    using star_ends_greedy [OF assms(2,3)] by blast
  then show ?thesis
    using assms(1,4) by (simp add: match_items_def first_some_head)
qed

lemma match_items_lits_ignorecase:
  "lower pre' = lower pre \<Longrightarrow>
   match_items True (lits pre @ rest) (pre' @ t) = match_items True rest t"
proof (induction pre arbitrary: pre')
  case Nil
  then show ?case by (simp add: lits_def lower_def)
next
  case (Cons c pre)
  from Cons.prems obtain x xs where pre': "pre' = x # xs" and x: "py_lower x = py_lower c"
      and xs: "lower xs = lower pre"
    by (cases pre') (auto simp: lower_def)
  have "lits (c # pre) @ rest = Atom (One (Lit c)) # (lits pre @ rest)"
    by (simp add: lits_def)
  then show ?case
    using x Cons.IH [OF xs] by (simp add: pre' match_items_one)
qed

lemma assigned_literal_match:
  assumes "\<forall>c\<in>set ws1. is_space c" and "\<forall>c\<in>set ws2. is_space c"
    and "is_quote q" and "is_quote q'" and "lit \<noteq> []" and "\<forall>c\<in>set lit. \<not> is_quote c"
  shows "match_items True assigned_literal (ws1 @ ''='' @ ws2 @ q # lit @ [q']) = Some []"
proof -
  obtain l ls where lit: "lit = l # ls"
    using assms(5) by (cases lit) auto
  have closing: "match_items True [Atom (One quote)] [q'] = Some []"
    using assms(4) by (simp add: match_items_one cset_match_quote match_items_Nil del: cset_match.simps)
  have body: "match_items True [Atom (Plus not_quote), Atom (One quote)] (l # ls @ [q']) = Some []"
    using assms(4,6) closing
    by (intro match_items_plus) (simp_all add: lit cset_match_not_quote del: cset_match.simps)
  have opened: "match_items True [Atom (One quote), Atom (Plus not_quote), Atom (One quote)]
      (q # lit @ [q']) = Some []"
    using assms(3) body by (simp add: match_items_one cset_match_quote lit del: cset_match.simps)
  have second: "match_items True
      [Atom (Star Space), Atom (One quote), Atom (Plus not_quote), Atom (One quote)]
      (ws2 @ q # lit @ [q']) = Some []"
    using assms(2,3) opened
    by (intro match_items_star) (simp_all add: not_space_quote)
  have equals: "match_items True
      [Atom (One (Lit (CHR ''=''))), Atom (Star Space), Atom (One quote), Atom (Plus not_quote),
       Atom (One quote)]
      (CHR ''='' # ws2 @ q # lit @ [q']) = Some []"
    using second by (simp add: match_items_one cset_match_equals del: cset_match.simps)
  have "match_items True
      [Atom (Star Space), Atom (One (Lit (CHR ''=''))), Atom (Star Space), Atom (One quote),
       Atom (Plus not_quote), Atom (One quote)]
      (ws1 @ CHR ''='' # ws2 @ q # lit @ [q']) = Some []"
    using assms(1) equals
    by (intro match_items_star) (simp_all add: not_space_equals)
  then show ?thesis
    by (simp add: assigned_literal_def atoms_def)
qed

section \<open>Credential assignments\<close>

lemma match_items_opt:
  "match_items ic (Atom (Opt c) # rest) (x # t) =
     (if cset_match ic c x
      then (case match_items ic rest t of Some y \<Rightarrow> Some y | None \<Rightarrow> match_items ic rest (x # t))
      else match_items ic rest (x # t))"
  by (simp add: match_items_def first_some.simps split: option.splits)

lemma match_items_lits_named:
  assumes "lower name = pre" and "lower pre = pre"
  shows "match_items True (lits pre @ rest) (name @ t) = match_items True rest t"
  by (rule match_items_lits_ignorecase) (simp add: assms)

lemma lower_names:
  "lower ''password'' = ''password''" "lower ''api'' = ''api''" "lower ''key'' = ''key''"
  "lower ''secret'' = ''secret''" "lower ''token'' = ''token''"
  by (simp_all add: lower_def py_lower_def)

lemma lower_split:
  assumes "lower name = a @ b"
  shows "lower (take (length a) name) = a \<and> lower (drop (length a) name) = b \<and>
    name = take (length a) name @ drop (length a) name"
proof -
  have "lower (take (length a) name) = take (length a) (lower name)"
    "lower (drop (length a) name) = drop (length a) (lower name)"
    by (simp_all add: lower_simps)
  then show ?thesis
    by (simp add: assms)
qed

lemma api_key_prefix_match:
  assumes "lower name = ''api_key'' \<or> lower name = ''apikey''"
    and "match_items True rest t = Some r"
  shows "match_items True (lits ''api'' @ atoms [Opt (OneOf ''_'')] @ lits ''key'' @ rest) (name @ t) =
    Some r"
proof -
  from assms(1) obtain mid where low: "lower name = ''api'' @ mid" and mid: "mid = ''_key'' \<or> mid = ''key''"
    by auto
  define n1 where "n1 = take (length ''api'') name"
  define n2 where "n2 = drop (length ''api'') name"
  from lower_split [OF low] have n1: "lower n1 = ''api''" and n2: "lower n2 = mid"
    and name: "name = n1 @ n2"
    unfolding n1_def n2_def by blast+
  have step1: "match_items True (lits ''api'' @ atoms [Opt (OneOf ''_'')] @ lits ''key'' @ rest) (name @ t) =
      match_items True (Atom (Opt (OneOf ''_'')) # lits ''key'' @ rest) (n2 @ t)"
    unfolding name using match_items_lits_named [OF n1 lower_names(2), of "atoms [Opt (OneOf ''_'')] @ lits ''key'' @ rest" "n2 @ t"]
    by (simp add: atoms_def)
  from mid show ?thesis
  proof
    assume "mid = ''_key''"
    with n2 have "lower n2 = ''_'' @ ''key''"
      by simp
    from lower_split [OF this] obtain u n3 where n2': "n2 = u # n3" and u: "py_lower u = CHR ''_''"
      and n3: "lower n3 = ''key''"
      by (cases n2) (auto simp: lower_def)
    have "match_items True (lits ''key'' @ rest) (n3 @ t) = Some r"
      using match_items_lits_named [OF n3 lower_names(3)] assms(2) by simp
    then have "match_items True (Atom (Opt (OneOf ''_'')) # lits ''key'' @ rest) (u # n3 @ t) = Some r"
      using u by (simp add: match_items_opt py_lower_fixed)
    then show ?thesis
      by (simp add: step1 n2')
  next
    assume "mid = ''key''"
    with n2 have n2k: "lower n2 = ''key''"
      by simp
    then obtain k n3 where n2': "n2 = k # n3" and k: "py_lower k = CHR ''k''"
      by (cases n2) (auto simp: lower_def)
    have "match_items True (lits ''key'' @ rest) (n2 @ t) = Some r"
      using match_items_lits_named [OF n2k lower_names(3)] assms(2) by simp
    then have "match_items True (Atom (Opt (OneOf ''_'')) # lits ''key'' @ rest) (k # n3 @ t) = Some r"
      using k by (simp add: match_items_opt n2' py_lower_fixed)
    then show ?thesis
      by (simp add: step1 n2')
  qed
qed

lemma credential_assignment_matches:
  assumes "credential_assignment s"
  shows "\<exists>pat\<in>set hardcoded_secret_patterns. match_items True pat s = Some []"
proof -
  from assms obtain name ws1 ws2 q lit q' where s: "s = name @ ws1 @ ''='' @ ws2 @ q # lit @ [q']"
    and name: "lower name \<in> set credential_names"
    and shape: "\<forall>c\<in>set ws1. is_space c" "\<forall>c\<in>set ws2. is_space c" "is_quote q" "is_quote q'"
      "lit \<noteq> []" "\<forall>c\<in>set lit. \<not> is_quote c"
    unfolding credential_assignment_def by blast
  let ?t = "ws1 @ ''='' @ ws2 @ q # lit @ [q']"
  have tail: "match_items True assigned_literal ?t = Some []"
    using shape by (rule assigned_literal_match)
  from name consider "lower name = ''password''" | "lower name = ''api_key'' \<or> lower name = ''apikey''"
    | "lower name = ''secret''" | "lower name = ''token''"
    by (auto simp: credential_names_def)
  then show ?thesis
  proof cases
    case 1
    have "match_items True (lits ''password'' @ assigned_literal) (name @ ?t) = Some []"
      using match_items_lits_named [OF 1 lower_names(1)] tail by simp
    then show ?thesis
      unfolding s hardcoded_secret_patterns_def by simp
  next
    case 2
    have "match_items True (lits ''api'' @ atoms [Opt (OneOf ''_'')] @ lits ''key'' @ assigned_literal)
        (name @ ?t) = Some []"
      using 2 tail by (rule api_key_prefix_match)
    then show ?thesis
      unfolding s hardcoded_secret_patterns_def by simp
  next
    case 3
    have "match_items True (lits ''secret'' @ assigned_literal) (name @ ?t) = Some []"
      using match_items_lits_named [OF 3 lower_names(4)] tail by simp
    then show ?thesis
      unfolding s hardcoded_secret_patterns_def by simp
  next
    case 4
    have "match_items True (lits ''token'' @ assigned_literal) (name @ ?t) = Some []"
      using match_items_lits_named [OF 4 lower_names(5)] tail by simp
    then show ?thesis
      unfolding s hardcoded_secret_patterns_def by simp
  qed
qed

section \<open>The match at the start of a credential assignment\<close>

lemma finditer_first:
  assumes "match_items ic pat s = Some []" and "s \<noteq> []"
  shows "\<exists>others. finditer ic pat s = (0, s) # others"
proof -
  obtain k where k: "length s = Suc k"
    using assms(2) by (cases s) auto
  have "match_len ic pat s = Some (Suc k)"
    using assms(1) k by (simp add: match_len_def)
  then have "finditer_from ic pat 0 s =
      (0, take (Suc k) s) # finditer_from ic pat (0 + Suc k) (drop (Suc k) s)"
    by (subst finditer_from.simps) simp
  moreover have "take (Suc k) s = s"
    using k by simp
  ultimately show ?thesis
    unfolding finditer_def by simp
qed

lemma match_items_one_Nil: "match_items ic (Atom (One c) # rest) [] = None"
  by (simp add: match_items_def)

lemma first_letter_needed:
  assumes "match_items True (lits (c # pre) @ rest) s = Some r"
  shows "s \<noteq> [] \<and> py_lower (hd s) = py_lower c"
proof -
  have "lits (c # pre) @ rest = Atom (One (Lit c)) # (lits pre @ rest)"
    by (simp add: lits_def)
  with assms show ?thesis
    by (cases s) (auto simp: match_items_one match_items_one_Nil split: if_splits)
qed

lemma secret_pattern_letter:
  assumes "pat \<in> set hardcoded_secret_patterns" and "match_items True pat s = Some r"
  shows "(pat = hardcoded_secret_patterns ! 0 \<and> py_lower (hd s) = CHR ''p'') \<or>
    (pat = hardcoded_secret_patterns ! 1 \<and> py_lower (hd s) = CHR ''a'') \<or>
    (pat = hardcoded_secret_patterns ! 2 \<and> py_lower (hd s) = CHR ''s'') \<or>
    (pat = hardcoded_secret_patterns ! 3 \<and> py_lower (hd s) = CHR ''t'')"
proof -
  have low: "py_lower (CHR ''p'') = CHR ''p''" "py_lower (CHR ''a'') = CHR ''a''"
    "py_lower (CHR ''s'') = CHR ''s''" "py_lower (CHR ''t'') = CHR ''t''"
    by (simp_all add: py_lower_def)
  from assms(1) consider "pat = lits ''password'' @ assigned_literal"
    | "pat = lits ''api'' @ atoms [Opt (OneOf ''_'')] @ lits ''key'' @ assigned_literal"
    | "pat = lits ''secret'' @ assigned_literal"
    | "pat = lits ''token'' @ assigned_literal"
    by (auto simp: hardcoded_secret_patterns_def)
  then show ?thesis
  proof cases
    case 1
    with assms(2) have "py_lower (hd s) = CHR ''p''"
      using first_letter_needed [of "CHR ''p''" "''assword''" assigned_literal s r] low by simp
    with 1 show ?thesis by (simp add: hardcoded_secret_patterns_def)
  next
    case 2
    with assms(2) have "py_lower (hd s) = CHR ''a''"
      using first_letter_needed [of "CHR ''a''" "''pi''"
          "atoms [Opt (OneOf ''_'')] @ lits ''key'' @ assigned_literal" s r] low by simp
    with 2 show ?thesis by (simp add: hardcoded_secret_patterns_def)
  next
    case 3
    with assms(2) have "py_lower (hd s) = CHR ''s''"
      using first_letter_needed [of "CHR ''s''" "''ecret''" assigned_literal s r] low by simp
    with 3 show ?thesis by (simp add: hardcoded_secret_patterns_def)
  next
    case 4
    with assms(2) have "py_lower (hd s) = CHR ''t''"
      using first_letter_needed [of "CHR ''t''" "''oken''" assigned_literal s r] low by simp
    with 4 show ?thesis by (simp add: hardcoded_secret_patterns_def)
  qed
qed

lemma secret_pattern_unique:
  assumes "pat \<in> set hardcoded_secret_patterns" and "match_items True pat s = Some r"
    and "pat' \<in> set hardcoded_secret_patterns" and "match_items True pat' s = Some r'"
  shows "pat = pat'"
  using secret_pattern_letter [OF assms(1,2)] secret_pattern_letter [OF assms(3,4)]
  by auto

section \<open>Recording a credential assignment\<close>

lemma credential_assignment_nonempty: "credential_assignment s \<Longrightarrow> s \<noteq> []"
  by (auto simp: credential_assignment_def)

lemma credential_assignment_found:
  assumes "credential_assignment content"
  shows "(0, content) \<in> set (all_matches True hardcoded_secret_patterns content)"
proof -
  obtain pat where pat: "pat \<in> set hardcoded_secret_patterns"
      and m: "match_items True pat content = Some []"
    using credential_assignment_matches [OF assms] by blast
  obtain others where "finditer True pat content = (0, content) # others"
    using finditer_first [OF m credential_assignment_nonempty [OF assms]] by blast
  then have "(0, content) \<in> set (finditer True pat content)"
    by simp
  with pat show ?thesis
    by (auto simp: all_matches_def)
qed

lemma credential_assignment_whole:
  assumes "credential_assignment content"
    and "(0, g) \<in> set (all_matches True hardcoded_secret_patterns content)"
  shows "g = content"
proof -
  obtain pat where pat: "pat \<in> set hardcoded_secret_patterns"
      and m: "match_items True pat content = Some []"
    using credential_assignment_matches [OF assms(1)] by blast
  from assms(2) obtain pat' where pat': "pat' \<in> set hardcoded_secret_patterns"
      and g: "(0, g) \<in> set (finditer True pat' content)"
    by (auto simp: all_matches_def)
  from finditer_sound [OF g] have len: "match_len True pat' content = Some (length g)"
    and take: "g = take (length g) content"
    by simp_all
  from len obtain r' where "match_items True pat' content = Some r'"
    using match_len_SomeD by blast
  then have "pat' = pat"
    using secret_pattern_unique pat pat' m by blast
  with len m have "length g = length content"
    by (simp add: match_len_def)
  with take show ?thesis
    by simp
qed

lemma str_int_one: "str_int 1 = ''1''"
  by code_simp

lemma recorded_at_start:
  "recorded (match_call content ''hardcoded_secret'' ''Possible hardcoded secret at line '' HIGH_RISK
     (0, g)) = secret_at_start"
  by (simp add: match_call_def recorded_def get_line_number_def slice_to_def Let_def
      str_int_one secret_at_start_def)

lemma credential_assignment_recorded:
  assumes "credential_assignment content"
  shows "\<not> looks_like_env content \<longrightarrow>
      secret_at_start \<in> set (vulnerabilities (security (check_for_hardcoded_secrets fm content)))"
    and "looks_like_env content \<longrightarrow>
      (\<forall>m\<in>set (filter (\<lambda>m. \<not> looks_like_env (snd m))
          (all_matches True hardcoded_secret_patterns content)). fst m \<noteq> 0)"
proof -
  show "\<not> looks_like_env content \<longrightarrow>
      secret_at_start \<in> set (vulnerabilities (security (check_for_hardcoded_secrets fm content)))"
  proof
    assume "\<not> looks_like_env content"
    with credential_assignment_found [OF assms]
    have "(0, content) \<in> set (filter (\<lambda>m. \<not> looks_like_env (snd m))
        (all_matches True hardcoded_secret_patterns content))"
      by simp
    then have "recorded (match_call content ''hardcoded_secret''
        ''Possible hardcoded secret at line '' HIGH_RISK (0, content)) \<in>
        set (map recorded (secret_calls content))"
      unfolding secret_calls_def by (simp only: set_map) (rule imageI, rule imageI)
    then show "secret_at_start \<in> set (vulnerabilities (security (check_for_hardcoded_secrets fm content)))"
      by (simp only: recorded_at_start check_for_hardcoded_secrets_calls add_all_vulnerabilities)
         simp
  qed
  show "looks_like_env content \<longrightarrow>
      (\<forall>m\<in>set (filter (\<lambda>m. \<not> looks_like_env (snd m))
          (all_matches True hardcoded_secret_patterns content)). fst m \<noteq> 0)"
  proof (intro impI ballI notI)
    fix m
    assume env: "looks_like_env content"
      and m: "m \<in> set (filter (\<lambda>m. \<not> looks_like_env (snd m))
          (all_matches True hardcoded_secret_patterns content))"
      and zero: "fst m = 0"
    from m zero have "(0, snd m) \<in> set (all_matches True hardcoded_secret_patterns content)"
      by (metis filter_is_subset prod.collapse subsetD)
    then have "snd m = content"
      using credential_assignment_whole [OF assms] by blast
    with m env show False
      by simp
  qed
qed

section \<open>Properties of the scan, the resolver and the score\<close>

lemma ex_eval_calls:
  "file_calls ''python'' ex_eval =
     [(''os_command_injection'', ''Possible command injection at line 1'',
       \<lparr> line = 1, column = 1, position = 0 \<rparr>, HIGH_RISK)]"
  by code_simp

text \<open>
  C1. On a fresh record (no vulnerability, score 100) the score after \<open>analyze_file\<close> is
  \<open>max 0 (100 - total)\<close>, where \<open>total\<close> adds 25, 15, 5 or 1 for each recorded
  vulnerability according to its level; and two sequences of calls of
  \<open>add_vulnerability\<close> with the same multiset of levels leave the same score.
\<close>

theorem analyze_file_score_closed_form:
  "vulnerabilities (security fm) = [] \<Longrightarrow> security_score (security fm) = 100 \<Longrightarrow>
   security_score (security (analyze_file fm content ast_data)) =
     max 0 (100 - (\<Sum>v\<leftarrow>vulnerabilities (security (analyze_file fm content ast_data)).
                      deduction (level v))) \<and>
   deduction CRITICAL = 25 \<and> deduction HIGH_RISK = 15 \<and>
   deduction MEDIUM_RISK = 5 \<and> deduction LOW_RISK = 1 \<and>
   (\<forall>cs cs'. mset (map call_level cs) = mset (map call_level cs') \<longrightarrow>
      security_score (security (add_all fm cs)) = security_score (security (add_all fm cs')))"
proof -
  assume fresh: "vulnerabilities (security fm) = []" and start: "security_score (security fm) = 100"
  let ?fm' = "analyze_file fm content ast_data"
  let ?cs = "file_calls (language fm) content"
  have "security_score (security ?fm') = max 0 (100 - sum_list (map deduction (map call_level ?cs)))"
    by (simp only: analyze_file_calls add_all_score start charge_closed)
  moreover have "vulnerabilities (security ?fm') = map recorded ?cs"
    by (simp only: analyze_file_calls add_all_vulnerabilities fresh append_Nil)
  ultimately have closed: "security_score (security ?fm') =
      max 0 (100 - (\<Sum>v\<leftarrow>vulnerabilities (security ?fm'). deduction (level v)))"
    by (simp only: sum_list_level_recorded)
  have order: "security_score (security (add_all fm cs)) = security_score (security (add_all fm cs'))"
    if "mset (map call_level cs) = mset (map call_level cs')" for cs cs'
    using that by (simp only: add_all_score start) (rule charge_mset, simp_all)
  have table: "deduction CRITICAL = 25 \<and> deduction HIGH_RISK = 15 \<and>
      deduction MEDIUM_RISK = 5 \<and> deduction LOW_RISK = 1"
    by simp
  from closed table order show ?thesis
    by blast
qed

theorem analyze_file_score_closed_form_witness:
  "vulnerabilities (security (ex_file ''python'')) = [] \<and>
   security_score (security (ex_file ''python'')) = 100 \<and>
   vulnerabilities (security (analyze_file (ex_file ''python'') ex_eval (None :: unit option))) =
     [\<lparr> vuln_type = ''os_command_injection'', message = ''Possible command injection at line 1'',
        location = \<lparr> line = 1, column = 1, position = 0 \<rparr>, level = HIGH_RISK,
        severity = ''high'' \<rparr>] \<and>
   security_score (security (analyze_file (ex_file ''python'') ex_eval (None :: unit option))) = 85 \<and>
   mset (map call_level [(''a'', ''m'', \<lparr> line = 1, column = 1, position = 0 \<rparr>, CRITICAL),
                         (''b'', ''n'', \<lparr> line = 2, column = 1, position = 9 \<rparr>, LOW_RISK)]) =
   mset (map call_level [(''b'', ''n'', \<lparr> line = 2, column = 1, position = 9 \<rparr>, LOW_RISK),
                         (''a'', ''m'', \<lparr> line = 1, column = 1, position = 0 \<rparr>, CRITICAL)]) \<and>
   security_score (security (add_all (ex_file ''python'')
       [(''a'', ''m'', \<lparr> line = 1, column = 1, position = 0 \<rparr>, CRITICAL),
        (''b'', ''n'', \<lparr> line = 2, column = 1, position = 9 \<rparr>, LOW_RISK)])) =
   security_score (security (add_all (ex_file ''python'')
       [(''b'', ''n'', \<lparr> line = 2, column = 1, position = 9 \<rparr>, LOW_RISK),
        (''a'', ''m'', \<lparr> line = 1, column = 1, position = 0 \<rparr>, CRITICAL)]))"
  using analyze_file_score_closed_form [of "ex_file ''python''" ex_eval "None :: unit option"]
  by (simp add: analyze_file_calls add_all_vulnerabilities ex_eval_calls ex_file_def
      recorded_def call_level_def)

text \<open>
  C4. For an offset \<open>p\<close> with \<open>0 \<le> p \<le> length content\<close>, \<open>get_line_number\<close> returns
  as line one more than the number of newlines before \<open>p\<close>, as column one more than
  the number of characters between the last newline before \<open>p\<close> (or the start) and
  \<open>p\<close>, and \<open>p\<close> as position; the first character of the third line resolves to line
  3, column 1.
\<close>

theorem get_line_number_resolves:
  "0 \<le> p \<Longrightarrow> p \<le> int (length content) \<Longrightarrow>
   line (get_line_number content p) = 1 + int (count_list (take (nat p) content) newline) \<and>
   column (get_line_number content p) =
     1 + int (length (takeWhile (\<lambda>c. c \<noteq> newline) (rev (take (nat p) content)))) \<and>
   position (get_line_number content p) = p \<and>
   (\<forall>l1 l2 rest. newline \<notin> set l1 \<and> newline \<notin> set l2 \<and>
      content = l1 @ [newline] @ l2 @ [newline] @ rest \<and> p = int (length l1 + length l2 + 2) \<longrightarrow>
      line (get_line_number content p) = 3 \<and> column (get_line_number content p) = 1)"
proof -
  assume p: "0 \<le> p" "p \<le> int (length content)"
  have l: "line (get_line_number content p) = 1 + int (count_list (take (nat p) content) newline)"
    using p by (simp add: get_line_number_def Let_def slice_to_nonneg length_split_on)
  have c: "column (get_line_number content p) =
     1 + int (length (takeWhile (\<lambda>c. c \<noteq> newline) (rev (take (nat p) content))))"
    using p by (simp add: get_line_number_def Let_def slice_to_nonneg length_last_split_on)
  have q: "position (get_line_number content p) = p"
    by (simp add: get_line_number_def Let_def)
  have third: "line (get_line_number content p) = 3 \<and> column (get_line_number content p) = 1"
    if h: "newline \<notin> set l1" "newline \<notin> set l2"
      "content = l1 @ [newline] @ l2 @ [newline] @ rest" "p = int (length l1 + length l2 + 2)"
    for l1 l2 rest
  proof -
    have "nat p = length (l1 @ [newline] @ l2 @ [newline])"
      using h by simp
    then have t: "take (nat p) content = l1 @ [newline] @ l2 @ [newline]"
      unfolding h(3) by (metis append.assoc append_eq_conv_conj)
    have "count_list l1 newline = 0" "count_list l2 newline = 0"
      using h by (simp_all add: count_list_0_iff)
    then show ?thesis
      unfolding l c t by simp
  qed
  from l c q third show ?thesis
    by blast
qed

theorem get_line_number_resolves_witness:
  "(0::int) \<le> 6 \<and> (6::int) \<le> int (length ''ab'' + length ''cd'' + 2 + length ''ef'') \<and>
   CHR 0x0A \<notin> set ''ab'' \<and> CHR 0x0A \<notin> set ''cd'' \<and>
   get_line_number (''ab'' @ [CHR 0x0A] @ ''cd'' @ [CHR 0x0A] @ ''ef'') 6 =
     \<lparr> line = 3, column = 1, position = 6 \<rparr>"
  using get_line_number_resolves [of 6 "''ab'' @ [CHR 0x0A] @ ''cd'' @ [CHR 0x0A] @ ''ef''"]
  by (simp add: get_line_number_def Let_def slice_to_def)

text \<open>
  C7. \<open>analyze_file\<close> returns the file record unchanged when the content is empty or
  when the language is not one of python, javascript, typescript, jsx. The function is
  total: no input makes it fail.
\<close>

theorem analyze_file_noop:
  "content = [] \<or> language fm \<notin> {''python'', ''javascript'', ''typescript'', ''jsx''} \<Longrightarrow>
   analyze_file fm content ast_data = fm"
  by (auto simp: analyze_file_def)

theorem analyze_file_noop_witness:
  "analyze_file (ex_file ''python'') [] (None :: unit option) = ex_file ''python'' \<and>
   language (ex_file ''rust'') \<notin> {''python'', ''javascript'', ''typescript'', ''jsx''} \<and>
   analyze_file (ex_file ''rust'') ex_eval (None :: unit option) = ex_file ''rust''"
  using analyze_file_noop [of "[]" "ex_file ''python''" "None :: unit option"]
    analyze_file_noop [of ex_eval "ex_file ''rust''" "None :: unit option"]
  by (simp add: ex_file_def)

text \<open>
  C9. The result of \<open>analyze_file\<close> does not depend on the syntax handle: any two values
  of \<open>ast_data\<close>, of any types, absent or present, give the same file record, hence the
  same vulnerabilities and the same score.
\<close>

theorem analyze_file_ignores_ast_data:
  "analyze_file fm content (a :: 'a option) = analyze_file fm content (b :: 'b option)"
  by (simp only: analyze_file_calls)

theorem analyze_file_ignores_ast_data_witness:
  "analyze_file (ex_file ''python'') ex_eval (None :: unit option) =
   analyze_file (ex_file ''python'') ex_eval (Some (3 :: nat))"
  using analyze_file_ignores_ast_data [of "ex_file ''python''" ex_eval "None :: unit option" "Some (3 :: nat)"]
  by simp

section \<open>Project aggregation\<close>

lemma tally_apply:
  "tally types v t =
     (if t = vuln_type v then Some ((case types t of None \<Rightarrow> 0 | Some c \<Rightarrow> c) + 1) else types t)"
  by (auto simp: tally_def Let_def split: option.splits)

lemma foldl_tally_apply:
  "foldl tally types vs t =
     (if t \<in> vuln_type ` set vs
      then Some ((case types t of None \<Rightarrow> 0 | Some c \<Rightarrow> c) + int (count_list (map vuln_type vs) t))
      else types t)"
proof (induction vs arbitrary: types)
  case Nil
  then show ?case by simp
next
  case (Cons v vs)
  have "foldl tally types (v # vs) t = foldl tally (tally types v) vs t"
    by simp
  also have "\<dots> =
     (if t \<in> vuln_type ` set vs
      then Some ((case tally types v t of None \<Rightarrow> 0 | Some c \<Rightarrow> c) +
                 int (count_list (map vuln_type vs) t))
      else tally types v t)"
    by (rule Cons.IH)
  also have "\<dots> =
     (if t \<in> vuln_type ` set (v # vs)
      then Some ((case types t of None \<Rightarrow> 0 | Some c \<Rightarrow> c) +
                 int (count_list (map vuln_type (v # vs)) t))
      else types t)"
    unfolding tally_apply by (auto simp: count_list_0_iff)
  finally show ?case .
qed

lemma foldl_files_concat:
  "foldl (\<lambda>types fm. foldl tally types (security_issues fm)) types fms =
     foldl tally types (concat (map security_issues fms))"
  by (induction fms arbitrary: types) simp_all

lemma count_list_concat_files:
  "int (count_list (map vuln_type (concat (map security_issues fms))) t) = occurrences t fms"
  by (induction fms) (simp_all add: occurrences_def)

lemma occurrences_zero_iff:
  "occurrences t fms = 0 \<longleftrightarrow> t \<notin> vuln_type ` set (concat (map security_issues fms))"
proof -
  have "occurrences t fms = 0 \<longleftrightarrow>
      count_list (map vuln_type (concat (map security_issues fms))) t = 0"
    by (simp only: count_list_concat_files [symmetric] of_nat_eq_0_iff)
  then show ?thesis
    by (simp only: count_list_0_iff set_map)
qed

lemma analyze_project_types:
  "vulnerability_types (psecurity (analyze_project pm)) t =
     (if occurrences t (file_metrics pm) = 0 then None
      else Some (occurrences t (file_metrics pm)))"
  by (simp add: analyze_project_def Let_def foldl_files_concat foldl_tally_apply
      occurrences_zero_iff count_list_concat_files del: set_concat)

text \<open>
  C3. After \<open>analyze_project\<close> the mapping \<open>vulnerability_types\<close> sends every type
  \<open>t\<close> that occurs to the number of vulnerabilities of type \<open>t\<close> summed over all
  files, and holds no other key, whatever it held before; running it a second time
  changes nothing; with no file the mapping is empty.
\<close>

theorem analyze_project_tallies:
  "(\<forall>t. vulnerability_types (psecurity (analyze_project pm)) t =
      (if occurrences t (file_metrics pm) = 0 then None
       else Some (occurrences t (file_metrics pm)))) \<and>
   file_metrics (analyze_project pm) = file_metrics pm \<and>
   analyze_project (analyze_project pm) = analyze_project pm \<and>
   (file_metrics pm = [] \<longrightarrow> vulnerability_types (psecurity (analyze_project pm)) = Map.empty)"
proof -
  have files: "file_metrics (analyze_project pm) = file_metrics pm"
    by (simp add: analyze_project_def Let_def)
  have again: "analyze_project (analyze_project pm) = analyze_project pm"
    by (simp add: analyze_project_def Let_def)
  have none: "vulnerability_types (psecurity (analyze_project pm)) = Map.empty"
    if "file_metrics pm = []"
    using that by (simp add: analyze_project_def Let_def)
  from analyze_project_types files again none show ?thesis
    by blast
qed

theorem analyze_project_tallies_witness:
  "vulnerability_types (psecurity (analyze_project ex_project)) ''hardcoded_secret'' = Some 2 \<and>
   vulnerability_types (psecurity (analyze_project ex_project)) ''sql_injection'' = Some 1 \<and>
   vulnerability_types (psecurity (analyze_project ex_project)) ''stale'' = None \<and>
   analyze_project (analyze_project ex_project) = analyze_project ex_project \<and>
   file_metrics (ex_project \<lparr> file_metrics := [] \<rparr>) = [] \<and>
   vulnerability_types (psecurity (analyze_project (ex_project \<lparr> file_metrics := [] \<rparr>))) = Map.empty"
  using analyze_project_tallies [of ex_project]
    analyze_project_tallies [of "ex_project \<lparr> file_metrics := [] \<rparr>"]
  by (simp add: ex_project_def ex_vuln_def occurrences_def security_issues_def)

section \<open>Score range and the two-line example\<close>

lemma ex_sql_calls:
  "map call_level (file_calls ''python'' ex_sql) = [CRITICAL, CRITICAL, CRITICAL, CRITICAL, CRITICAL]"
  by code_simp

lemma ex_two_lines_calls:
  "file_calls ''python'' ex_two_lines =
     [(''os_command_injection'', ''Possible command injection at line 2'',
       \<lparr> line = 2, column = 1, position = 20 \<rparr>, HIGH_RISK),
      (''hardcoded_secret'', ''Possible hardcoded secret at line 1'',
       \<lparr> line = 1, column = 1, position = 0 \<rparr>, HIGH_RISK)]"
  by code_simp

lemma charge_step: "0 \<le> s \<Longrightarrow> charge s (take (Suc k) ls) \<le> charge s (take k ls)"
proof (cases "k < length ls")
  case True
  assume "0 \<le> s"
  then have "0 \<le> charge s (take k ls)"
    by (simp add: charge_bounds)
  then show ?thesis
    using True deduction_nonneg [of "ls ! k"]
    by (simp add: take_Suc_conv_app_nth charge_snoc)
next
  case False
  then show ?thesis by simp
qed

text \<open>
  C6. Starting from score 100, after any number of calls of \<open>add_vulnerability\<close> the
  score is between 0 and 100 and no call increases it; a scan by \<open>analyze_file\<close> is
  such a sequence of calls, so the bounds hold at every point of the scan and after
  it; and when the deductions add up to 100 or more the score is 0.
\<close>

theorem score_stays_in_range:
  "security_score (security fm) = 100 \<Longrightarrow>
   (\<forall>cs k. 0 \<le> security_score (security (add_all fm (take k cs))) \<and>
      security_score (security (add_all fm (take k cs))) \<le> 100 \<and>
      security_score (security (add_all fm (take (Suc k) cs))) \<le>
        security_score (security (add_all fm (take k cs)))) \<and>
   analyze_file fm content ast_data = add_all fm (file_calls (language fm) content) \<and>
   0 \<le> security_score (security (analyze_file fm content ast_data)) \<and>
   security_score (security (analyze_file fm content ast_data)) \<le> 100 \<and>
   (\<forall>cs. 100 \<le> (\<Sum>c\<leftarrow>cs. deduction (call_level c)) \<longrightarrow>
      security_score (security (add_all fm cs)) = 0)"
proof -
  assume start: "security_score (security fm) = 100"
  have score: "security_score (security (add_all fm cs)) = charge 100 (map call_level cs)" for cs
    by (simp only: add_all_score start)
  have range: "0 \<le> security_score (security (add_all fm cs)) \<and>
      security_score (security (add_all fm cs)) \<le> 100" for cs
    unfolding score using charge_bounds [of 100] by simp
  have step: "security_score (security (add_all fm (take (Suc k) cs))) \<le>
      security_score (security (add_all fm (take k cs)))" for cs k
    unfolding score take_map [symmetric] by (rule charge_step) simp
  have floor: "security_score (security (add_all fm cs)) = 0"
    if "100 \<le> (\<Sum>c\<leftarrow>cs. deduction (call_level c))" for cs
    using that unfolding score by (simp add: charge_closed comp_def)
  from range step floor show ?thesis
    by (simp only: analyze_file_calls) blast
qed

theorem score_stays_in_range_witness:
  "security_score (security (ex_file ''python'')) = 100 \<and>
   security_score (security (add_all (ex_file ''python'') (take 2 (file_calls ''python'' ex_sql)))) = 50 \<and>
   100 \<le> (\<Sum>c\<leftarrow>file_calls ''python'' ex_sql. deduction (call_level c)) \<and>
   security_score (security (analyze_file (ex_file ''python'') ex_sql (None :: unit option))) = 0"
proof -
  have start: "security_score (security (ex_file ''python'')) = 100"
    by (simp add: ex_file_def)
  have lang: "language (ex_file ''python'') = ''python''"
    by (simp add: ex_file_def)
  have "security_score (security (add_all (ex_file ''python'') (take 2 (file_calls ''python'' ex_sql)))) =
      charge 100 (take 2 (map call_level (file_calls ''python'' ex_sql)))"
    by (simp only: add_all_score start take_map)
  then have two: "security_score (security (add_all (ex_file ''python'')
      (take 2 (file_calls ''python'' ex_sql)))) = 50"
    by (simp add: ex_sql_calls charge_def)
  have "(\<Sum>c\<leftarrow>file_calls ''python'' ex_sql. deduction (call_level c)) =
      sum_list (map deduction (map call_level (file_calls ''python'' ex_sql)))"
    by (simp add: comp_def)
  then have total: "100 \<le> (\<Sum>c\<leftarrow>file_calls ''python'' ex_sql. deduction (call_level c))"
    by (simp add: ex_sql_calls)
  note inst = score_stays_in_range [OF start, of ex_sql "None :: unit option", unfolded lang]
  have scan: "analyze_file (ex_file ''python'') ex_sql (None :: unit option) =
      add_all (ex_file ''python'') (file_calls ''python'' ex_sql)"
    using inst by blast
  have "security_score (security (add_all (ex_file ''python'') (file_calls ''python'' ex_sql))) = 0"
    using inst total by blast
  then have "security_score (security (analyze_file (ex_file ''python'') ex_sql (None :: unit option))) = 0"
    by (simp only: scan)
  with start two total show ?thesis
    by blast
qed

text \<open>
  C2. On a fresh Python record the two lines \<^verbatim>\<open>password = "s3cr3t"\<close> and
  \<^verbatim>\<open>os.system(user_input)\<close> give exactly two vulnerabilities, an
  \<open>os_command_injection\<close> of level \<open>HIGH_RISK\<close> on line 2 and a \<open>hardcoded_secret\<close> of
  level \<open>HIGH_RISK\<close> on line 1 (recorded in this order, the order of the checks), and
  the score 70.
\<close>

theorem two_line_example:
  "language fm = ''python'' \<Longrightarrow> vulnerabilities (security fm) = [] \<Longrightarrow>
   security_score (security fm) = 100 \<Longrightarrow>
   vulnerabilities (security (analyze_file fm ex_two_lines ast_data)) =
     [\<lparr> vuln_type = ''os_command_injection'',
        message = ''Possible command injection at line 2'',
        location = \<lparr> line = 2, column = 1, position = 20 \<rparr>,
        level = HIGH_RISK, severity = ''high'' \<rparr>,
      \<lparr> vuln_type = ''hardcoded_secret'',
        message = ''Possible hardcoded secret at line 1'',
        location = \<lparr> line = 1, column = 1, position = 0 \<rparr>,
        level = HIGH_RISK, severity = ''high'' \<rparr>] \<and>
   security_score (security (analyze_file fm ex_two_lines ast_data)) = 70"
  by (simp add: analyze_file_calls add_all_vulnerabilities add_all_score ex_two_lines_calls
      recorded_def charge_def call_level_def)

theorem two_line_example_witness:
  "language (ex_file ''python'') = ''python'' \<and>
   vulnerabilities (security (ex_file ''python'')) = [] \<and>
   security_score (security (ex_file ''python'')) = 100 \<and>
   ex_two_lines = ''password = '' @ [CHR 0x22] @ ''s3cr3t'' @ [CHR 0x22, CHR 0x0A] @
     ''os.system(user_input)'' \<and>
   map vuln_type (vulnerabilities (security (analyze_file (ex_file ''python'') ex_two_lines (None :: unit option)))) =
     [''os_command_injection'', ''hardcoded_secret''] \<and>
   security_score (security (analyze_file (ex_file ''python'') ex_two_lines (None :: unit option))) = 70"
proof -
  have fresh: "language (ex_file ''python'') = ''python''"
    "vulnerabilities (security (ex_file ''python'')) = []"
    "security_score (security (ex_file ''python'')) = 100"
    by (simp_all add: ex_file_def)
  have shape: "ex_two_lines = ''password = '' @ [CHR 0x22] @ ''s3cr3t'' @ [CHR 0x22, CHR 0x0A] @
     ''os.system(user_input)''"
    by (simp add: ex_two_lines_def)
  show ?thesis
    using two_line_example [OF fresh, of "None :: unit option"] fresh shape
    by simp
qed

section \<open>Command injection\<close>

lemma closing_paren_needed:
  "match_items False (atoms [Star (NoneOf '')''), One (Lit (CHR '')''))]) t = Some r \<Longrightarrow>
   CHR '')'' \<in> set t"
proof -
  assume "match_items False (atoms [Star (NoneOf '')''), One (Lit (CHR '')''))]) t = Some r"
  then have "first_some (match_with (item_ends False) [Atom (One (Lit (CHR '')'')))])
      (star_ends (cset_match False (NoneOf '')'')) t) = Some r"
    by (simp add: match_items_def atoms_def)
  then obtain u where u: "u \<in> set (star_ends (cset_match False (NoneOf '')'')) t)"
      and m: "match_with (item_ends False) [Atom (One (Lit (CHR '')'')))] u = Some r"
    using first_some_SomeD by fastforce
  from m have "u = CHR '')'' # r"
    by (cases u) (auto split: if_splits)
  moreover from u obtain w where "t = w @ u"
    by (auto simp: star_ends_set)
  ultimately show ?thesis
    by simp
qed

lemma shell_pattern_match:
  assumes "match_items False
      (lits pre @ [not_quoted_word] @ atoms [Star (NoneOf '')''), One (Lit (CHR '')''))]) s = Some r"
  shows "startswith s pre \<and> \<not> quoted_word_prefix (drop (length pre) s) \<and> CHR '')'' \<in> set s"
proof -
  from assms have pre: "startswith s pre"
    and rest: "match_items False
      (not_quoted_word # atoms [Star (NoneOf '')''), One (Lit (CHR '')''))]) (drop (length pre) s) = Some r"
    by (auto simp: match_items_lits split: if_splits)
  from rest have look: "match_atoms False [One quote, Plus Word, One quote] (drop (length pre) s) = None"
    and tail: "match_items False (atoms [Star (NoneOf '')''), One (Lit (CHR '')''))])
      (drop (length pre) s) = Some r"
    by (auto simp: not_quoted_word_def match_items_lookahead split: if_splits)
  from look have "\<not> quoted_word_prefix (drop (length pre) s)"
    using quoted_word_lookahead by blast
  moreover from tail have "CHR '')'' \<in> set (drop (length pre) s)"
    by (rule closing_paren_needed)
  then have "CHR '')'' \<in> set s"
    by (rule in_set_dropD)
  ultimately show ?thesis
    using pre by blast
qed

lemma eval_pattern_match:
  assumes "match_items False (lits ''eval('' @ atoms [Star (NoneOf '')''), One (Lit (CHR '')''))]) s = Some r"
  shows "startswith s ''eval('' \<and> CHR '')'' \<in> set s"
proof -
  from assms have pre: "startswith s ''eval(''"
    and tail: "match_items False (atoms [Star (NoneOf '')''), One (Lit (CHR '')''))])
      (drop (length ''eval('') s) = Some r"
    by (auto simp: match_items_lits split: if_splits)
  from tail have "CHR '')'' \<in> set (drop (length ''eval('') s)"
    by (rule closing_paren_needed)
  then have "CHR '')'' \<in> set s"
    by (rule in_set_dropD)
  with pre show ?thesis by blast
qed

lemma os_matches_shape:
  assumes "(p, g) \<in> set (all_matches False os_command_injection_patterns content)"
  shows "CHR '')'' \<in> set (drop p content) \<and>
    (startswith (drop p content) ''eval('' \<or>
     (\<exists>pre\<in>set shell_prefixes. startswith (drop p content) pre \<and>
        \<not> quoted_word_prefix (drop (length pre) (drop p content))))"
proof -
  from assms obtain pat where pat: "pat \<in> set os_command_injection_patterns"
      and m: "(p, g) \<in> set (finditer False pat content)"
    by (auto simp: all_matches_def)
  from m obtain r where r: "match_items False pat (drop p content) = Some r"
    using finditer_sound match_len_SomeD by blast
  from pat consider
      "pat = lits ''os.system('' @ [not_quoted_word] @ atoms [Star (NoneOf '')''), One (Lit (CHR '')''))]"
    | "pat = lits ''subprocess.call('' @ [not_quoted_word] @ atoms [Star (NoneOf '')''), One (Lit (CHR '')''))]"
    | "pat = lits ''subprocess.Popen('' @ [not_quoted_word] @ atoms [Star (NoneOf '')''), One (Lit (CHR '')''))]"
    | "pat = lits ''eval('' @ atoms [Star (NoneOf '')''), One (Lit (CHR '')''))]"
    by (auto simp: os_command_injection_patterns_def)
  then show ?thesis
  proof cases
    case 1
    with r show ?thesis
      using shell_pattern_match [of "''os.system(''" "drop p content" r]
      by (simp only: shell_prefixes_def) auto
  next
    case 2
    with r show ?thesis
      using shell_pattern_match [of "''subprocess.call(''" "drop p content" r]
      by (simp only: shell_prefixes_def) auto
  next
    case 3
    with r show ?thesis
      using shell_pattern_match [of "''subprocess.Popen(''" "drop p content" r]
      by (simp only: shell_prefixes_def) auto
  next
    case 4
    with r show ?thesis
      using eval_pattern_match [of "drop p content" r] by blast
  qed
qed


lemma position_match_call:
  "position (location (recorded (match_call content t msg lvl m))) = int (fst m)"
  by (simp add: match_call_def recorded_def get_line_number_def Let_def)

lemma vuln_type_match_call: "vuln_type (recorded (match_call content t msg lvl m)) = t"
  by (simp add: match_call_def recorded_def Let_def)

lemma level_match_call: "level (recorded (match_call content t msg lvl m)) = lvl"
  by (simp add: match_call_def recorded_def Let_def)

lemma python_os_vulnerability:
  assumes "v \<in> set (map recorded (file_calls ''python'' content))"
    and "vuln_type v = ''os_command_injection''"
  shows "\<exists>m\<in>set (all_matches False os_command_injection_patterns content).
    v = recorded (match_call content ''os_command_injection''
          ''Possible command injection at line '' HIGH_RISK m)"
proof -
  from assms(1) have "content \<noteq> []"
    by (auto simp: file_calls_def)
  with assms(1) consider "v \<in> recorded ` set (os_calls content)"
    | "v \<in> recorded ` set (sql_calls content)"
    | "v \<in> recorded ` set (deserialization_calls content)"
    | "v \<in> recorded ` set (secret_calls content)"
    by (auto simp: file_calls_def)
  then show ?thesis
  proof cases
    case 1
    then show ?thesis
      by (auto simp: os_calls_def)
  next
    case 2
    then have "vuln_type v = ''sql_injection''"
      by (auto simp: sql_calls_def vuln_type_match_call)
    with assms(2) show ?thesis by simp
  next
    case 3
    then have "vuln_type v = ''insecure_deserialization''"
      by (auto simp: deserialization_calls_def vuln_type_match_call)
    with assms(2) show ?thesis by simp
  next
    case 4
    then have "vuln_type v = ''hardcoded_secret''"
      by (auto simp: secret_calls_def vuln_type_match_call)
    with assms(2) show ?thesis by simp
  qed
qed


lemma startswith_both:
  assumes "startswith s a" and "startswith s b" and "length a \<le> length b"
  shows "take (length a) b = a"
proof -
  have "take (length a) b = take (length a) (take (length b) s)"
    using assms(2) by (simp add: startswith_def)
  also have "\<dots> = take (length a) s"
    using assms(3) by (simp add: min_absorb1)
  also have "\<dots> = a"
    using assms(1) by (simp add: startswith_def)
  finally show ?thesis .
qed

lemma shell_prefix_unique:
  "pre \<in> set shell_prefixes \<Longrightarrow> pre' \<in> set shell_prefixes \<Longrightarrow>
   startswith s pre \<Longrightarrow> startswith s pre' \<Longrightarrow> pre = pre'"
  using startswith_both [of s pre pre'] startswith_both [of s pre' pre]
  by (auto simp: shell_prefixes_def)

lemma shell_prefix_not_eval:
  "pre \<in> set shell_prefixes \<Longrightarrow> startswith s pre \<Longrightarrow> \<not> startswith s ''eval(''"
  using startswith_both [of s "''eval(''" pre]
  by (auto simp: shell_prefixes_def)

lemma ex_literal_command_calls:
  "map fst (file_calls ''python'' ex_literal_command) = [''os_command_injection'']"
  by code_simp

lemma ex_mixed_commands_calls:
  "file_calls ''python'' ex_mixed_commands =
     [(''os_command_injection'', ''Possible command injection at line 2'',
       \<lparr> line = 2, column = 1, position = 16 \<rparr>, HIGH_RISK)]"
  by code_simp

lemma ex_mixed_commands_quoted:
  "quoted_word_prefix (drop (0 + length ''os.system('') ex_mixed_commands)"
proof -
  have "drop (0 + length ''os.system('') ex_mixed_commands =
      dquote # ''ls'' @ dquote # ('')'' @ [newline] @ ''os.system(x)'')"
    by (simp add: ex_mixed_commands_def)
  moreover have "\<forall>c\<in>set ''ls''. is_word c"
    by (simp add: is_word_def)
  ultimately show ?thesis
    unfolding quoted_word_prefix_def is_quote_def by blast
qed

text \<open>
  C8, as stated, fails: the argument \<^verbatim>\<open>"ls -l"\<close> is a quoted string literal, and the
  call is recorded.
\<close>

theorem literal_command_counterexample:
  "ex_literal_command = ''os.system('' @ [CHR 0x22] @ ''ls -l'' @ [CHR 0x22] @ '')'' \<and>
   map vuln_type (vulnerabilities (security
     (analyze_file (ex_file ''python'') ex_literal_command (None :: unit option)))) =
   [''os_command_injection'']"
proof -
  have types: "map vuln_type (map recorded cs) = map fst cs" for cs
    by (simp add: recorded_def comp_def case_prod_beta)
  have "vulnerabilities (security (analyze_file (ex_file ''python'') ex_literal_command
      (None :: unit option))) = map recorded (file_calls ''python'' ex_literal_command)"
    by (simp add: analyze_file_calls add_all_vulnerabilities ex_file_def)
  then have "map vuln_type (vulnerabilities (security
     (analyze_file (ex_file ''python'') ex_literal_command (None :: unit option)))) =
     [''os_command_injection'']"
    by (simp only: types ex_literal_command_calls)
  then show ?thesis
    by (simp add: ex_literal_command_def)
qed

text \<open>
  C8, amended. In Python content every recorded \<open>os_command_injection\<close> lies at an
  offset where the text reads \<^verbatim>\<open>eval(\<close>, or reads one of \<^verbatim>\<open>os.system(\<close>,
  \<^verbatim>\<open>subprocess.call(\<close>, \<^verbatim>\<open>subprocess.Popen(\<close> and does not continue with a quoted run
  of word characters (a quote, one or more word characters, a quote); in both cases a
  closing parenthesis follows. Where a shell invocation continues with such a quoted
  word, as in \<^verbatim>\<open>os.system("ls")\<close>, no \<open>os_command_injection\<close> is recorded at that offset.
\<close>

theorem os_command_injection_only_unquoted_word:
  "language fm = ''python'' \<Longrightarrow> vulnerabilities (security fm) = [] \<Longrightarrow>
   v \<in> set (vulnerabilities (security (analyze_file fm content ast_data))) \<Longrightarrow>
   vuln_type v = ''os_command_injection'' \<Longrightarrow>
   (\<exists>p. position (location v) = int p \<and> CHR '')'' \<in> set (drop p content) \<and>
      (startswith (drop p content) ''eval('' \<or>
       (\<exists>pre\<in>set shell_prefixes. startswith (drop p content) pre \<and>
          \<not> quoted_word_prefix (drop (p + length pre) content)))) \<and>
   (\<forall>p pre. pre \<in> set shell_prefixes \<and> startswith (drop p content) pre \<and>
      quoted_word_prefix (drop (p + length pre) content) \<longrightarrow> position (location v) \<noteq> int p)"
proof -
  assume lang: "language fm = ''python''" and fresh: "vulnerabilities (security fm) = []"
    and v: "v \<in> set (vulnerabilities (security (analyze_file fm content ast_data)))"
    and t: "vuln_type v = ''os_command_injection''"
  from v have "v \<in> set (map recorded (file_calls ''python'' content))"
    by (simp only: analyze_file_calls add_all_vulnerabilities fresh lang append_Nil)
  with t obtain m where m: "m \<in> set (all_matches False os_command_injection_patterns content)"
    and vm: "v = recorded (match_call content ''os_command_injection''
          ''Possible command injection at line '' HIGH_RISK m)"
    using python_os_vulnerability by blast
  obtain p g where pg: "m = (p, g)"
    by (cases m)
  have pos: "position (location v) = int p"
    by (simp add: vm pg position_match_call)
  from os_matches_shape [of p g content] m pg
  have shape: "CHR '')'' \<in> set (drop p content)"
    "startswith (drop p content) ''eval('' \<or>
     (\<exists>pre\<in>set shell_prefixes. startswith (drop p content) pre \<and>
        \<not> quoted_word_prefix (drop (p + length pre) content))"
    by (simp_all add: add.commute)
  have excluded: "position (location v) \<noteq> int p'"
    if pre: "pre \<in> set shell_prefixes" "startswith (drop p' content) pre"
      and quoted: "quoted_word_prefix (drop (p' + length pre) content)" for p' pre
  proof
    assume "position (location v) = int p'"
    with pos have same: "p' = p" by simp
    from shape(2) show False
    proof
      assume "startswith (drop p content) ''eval(''"
      then show False
        using pre shell_prefix_not_eval same by blast
    next
      assume "\<exists>pre\<in>set shell_prefixes. startswith (drop p content) pre \<and>
        \<not> quoted_word_prefix (drop (p + length pre) content)"
      then obtain pre' where pre': "pre' \<in> set shell_prefixes" "startswith (drop p content) pre'"
        "\<not> quoted_word_prefix (drop (p + length pre') content)"
        by blast
      have "pre = pre'"
        using pre pre' same shell_prefix_unique by blast
      with pre' quoted same show False by simp
    qed
  qed
  from pos shape excluded show ?thesis
    by blast
qed

theorem os_command_injection_only_unquoted_word_witness:
  "language (ex_file ''python'') = ''python'' \<and>
   vulnerabilities (security (ex_file ''python'')) = [] \<and>
   vulnerabilities (security (analyze_file (ex_file ''python'') ex_mixed_commands (None :: unit option))) =
     [\<lparr> vuln_type = ''os_command_injection'', message = ''Possible command injection at line 2'',
        location = \<lparr> line = 2, column = 1, position = 16 \<rparr>, level = HIGH_RISK,
        severity = ''high'' \<rparr>] \<and>
   ''os.system('' \<in> set shell_prefixes \<and>
   startswith (drop 0 ex_mixed_commands) ''os.system('' \<and>
   quoted_word_prefix (drop (0 + length ''os.system('') ex_mixed_commands) \<and>
   (\<exists>p. (16 :: int) = int p \<and> CHR '')'' \<in> set (drop p ex_mixed_commands) \<and>
      (startswith (drop p ex_mixed_commands) ''eval('' \<or>
       (\<exists>pre\<in>set shell_prefixes. startswith (drop p ex_mixed_commands) pre \<and>
          \<not> quoted_word_prefix (drop (p + length pre) ex_mixed_commands)))) \<and>
   (16 :: int) \<noteq> int 0"
proof -
  let ?v = "\<lparr> vuln_type = ''os_command_injection'', message = ''Possible command injection at line 2'',
        location = \<lparr> line = 2, column = 1, position = 16 \<rparr>, level = HIGH_RISK,
        severity = ''high'' \<rparr>"
  have fresh: "language (ex_file ''python'') = ''python''"
    "vulnerabilities (security (ex_file ''python'')) = []"
    by (simp_all add: ex_file_def)
  have vulns: "vulnerabilities (security (analyze_file (ex_file ''python'') ex_mixed_commands
      (None :: unit option))) = [?v]"
    by (simp add: analyze_file_calls add_all_vulnerabilities fresh ex_mixed_commands_calls recorded_def)
  have member: "?v \<in> set (vulnerabilities (security (analyze_file (ex_file ''python'')
      ex_mixed_commands (None :: unit option))))"
    by (simp only: vulns) simp
  have kind: "vuln_type ?v = ''os_command_injection''"
    by simp
  have pre: "''os.system('' \<in> set shell_prefixes"
    by (simp add: shell_prefixes_def)
  have starts: "startswith (drop 0 ex_mixed_commands) ''os.system(''"
    by (simp add: startswith_def ex_mixed_commands_def)
  note inst = os_command_injection_only_unquoted_word [OF fresh member kind]
  from inst have shape: "\<exists>p. (16 :: int) = int p \<and> CHR '')'' \<in> set (drop p ex_mixed_commands) \<and>
      (startswith (drop p ex_mixed_commands) ''eval('' \<or>
       (\<exists>pre\<in>set shell_prefixes. startswith (drop p ex_mixed_commands) pre \<and>
          \<not> quoted_word_prefix (drop (p + length pre) ex_mixed_commands)))"
    by simp
  from inst pre starts ex_mixed_commands_quoted have "(16 :: int) \<noteq> int 0"
    by simp
  with fresh vulns pre starts ex_mixed_commands_quoted shape show ?thesis
    by blast
qed

section \<open>Hardcoded secrets: suppression and letter case\<close>

lemma ex_env_literal_matches: "secret_matches ex_env_literal = [(0, ex_env_literal)]"
  by code_simp

lemma ex_plain_literal_matches: "secret_matches ex_plain_literal = [(0, ex_plain_literal)]"
  by code_simp

lemma ex_env_literal_env: "looks_like_env ex_env_literal"
  by code_simp

lemma ex_plain_literal_env: "\<not> looks_like_env ex_plain_literal"
  by code_simp

lemma ex_plain_literal_call:
  "match_call ex_plain_literal ''hardcoded_secret'' ''Possible hardcoded secret at line '' HIGH_RISK
     (0, ex_plain_literal) =
   (''hardcoded_secret'', ''Possible hardcoded secret at line 1'',
    \<lparr> line = 1, column = 1, position = 0 \<rparr>, HIGH_RISK)"
  by code_simp

lemma call_level_match_call: "call_level (match_call content t msg lvl m) = lvl"
  by (simp add: match_call_def call_level_def Let_def)

lemma charge_replicate_high:
  "0 \<le> s \<Longrightarrow> charge s (replicate n HIGH_RISK) = max 0 (s - 15 * int n)"
  by (simp add: charge_closed sum_list_replicate)

text \<open>
  C5. In the hardcoded-secret check a match whose text contains \<^verbatim>\<open>os.environ\<close> or
  \<^verbatim>\<open>process.env\<close> adds no vulnerability and deducts nothing, and every other match adds
  one \<open>hardcoded_secret\<close> vulnerability of level \<open>HIGH_RISK\<close> and deducts 15: the
  vulnerabilities appended are those of the matches that do not look like an
  environment lookup, in the order of the matches. For a content that is one
  assignment of a quoted literal to a credential name, the vulnerability at offset 0
  is recorded when the content holds neither idiom, and no vulnerability at offset 0
  is recorded when it holds one.
\<close>

theorem hardcoded_secrets_suppression:
  "vulnerabilities (security (check_for_hardcoded_secrets fm content)) =
     vulnerabilities (security fm) @
     map (\<lambda>m. recorded (match_call content ''hardcoded_secret''
                  ''Possible hardcoded secret at line '' HIGH_RISK m))
       (filter (\<lambda>m. \<not> looks_like_env (snd m)) (secret_matches content)) \<and>
   (0 \<le> security_score (security fm) \<longrightarrow>
    security_score (security (check_for_hardcoded_secrets fm content)) =
      max 0 (security_score (security fm) -
             15 * int (length (filter (\<lambda>m. \<not> looks_like_env (snd m)) (secret_matches content))))) \<and>
   ((\<forall>m\<in>set (secret_matches content). looks_like_env (snd m)) \<longrightarrow>
    check_for_hardcoded_secrets fm content = fm) \<and>
   (\<forall>m. vuln_type (recorded (match_call content ''hardcoded_secret''
            ''Possible hardcoded secret at line '' HIGH_RISK m)) = ''hardcoded_secret'' \<and>
        level (recorded (match_call content ''hardcoded_secret''
            ''Possible hardcoded secret at line '' HIGH_RISK m)) = HIGH_RISK) \<and>
   (credential_assignment content \<longrightarrow>
      (\<not> looks_like_env content \<longrightarrow>
         secret_at_start \<in> set (vulnerabilities (security (check_for_hardcoded_secrets fm content)))) \<and>
      (looks_like_env content \<longrightarrow>
         (\<forall>m\<in>set (filter (\<lambda>m. \<not> looks_like_env (snd m)) (secret_matches content)).
            fst m \<noteq> 0)))"
proof -
  let ?kept = "filter (\<lambda>m. \<not> looks_like_env (snd m)) (secret_matches content)"
  let ?call = "match_call content ''hardcoded_secret'' ''Possible hardcoded secret at line '' HIGH_RISK"
  have calls: "secret_calls content = map ?call ?kept"
    by (simp add: secret_calls_def secret_matches_def)
  have vulns: "vulnerabilities (security (check_for_hardcoded_secrets fm content)) =
      vulnerabilities (security fm) @ map (\<lambda>m. recorded (?call m)) ?kept"
    by (simp add: check_for_hardcoded_secrets_calls add_all_vulnerabilities calls comp_def)
  have levels: "map call_level (secret_calls content) = replicate (length ?kept) HIGH_RISK"
    unfolding calls by (simp add: comp_def call_level_match_call map_replicate_const)
  have score: "security_score (security (check_for_hardcoded_secrets fm content)) =
      max 0 (security_score (security fm) - 15 * int (length ?kept))"
    if "0 \<le> security_score (security fm)"
    using that
    by (simp only: check_for_hardcoded_secrets_calls add_all_score levels charge_replicate_high)
  have none: "check_for_hardcoded_secrets fm content = fm"
    if "\<forall>m\<in>set (secret_matches content). looks_like_env (snd m)"
  proof -
    have "?kept = []"
      using that by (simp add: filter_empty_conv)
    then show ?thesis
      by (simp add: check_for_hardcoded_secrets_calls calls add_all_Nil)
  qed
  have fields: "vuln_type (recorded (?call m)) = ''hardcoded_secret'' \<and>
      level (recorded (?call m)) = HIGH_RISK" for m
    by (simp add: match_call_def recorded_def Let_def)
  have assignment: "(\<not> looks_like_env content \<longrightarrow>
         secret_at_start \<in> set (vulnerabilities (security (check_for_hardcoded_secrets fm content)))) \<and>
      (looks_like_env content \<longrightarrow> (\<forall>m\<in>set ?kept. fst m \<noteq> 0))"
    if "credential_assignment content"
    using credential_assignment_recorded(1) [OF that, of fm]
      credential_assignment_recorded(2) [OF that]
    by (simp only: secret_matches_def)
  from vulns score none fields assignment show ?thesis
    by blast
qed

lemma credential_assignmentI:
  assumes "s = name @ ws1 @ ''='' @ ws2 @ q # lit @ [q']" and "lower name \<in> set credential_names"
    and "\<forall>c\<in>set ws1. is_space c" and "\<forall>c\<in>set ws2. is_space c"
    and "is_quote q" and "is_quote q'" and "lit \<noteq> []" and "\<forall>c\<in>set lit. \<not> is_quote c"
  shows "credential_assignment s"
  unfolding credential_assignment_def using assms by blast

lemma ex_env_literal_assignment: "credential_assignment ex_env_literal"
  by (rule credential_assignmentI [where name = "''password''" and ?ws1.0 = "'' ''"
        and ?ws2.0 = "'' ''" and q = dquote and lit = "''os.environ''" and q' = dquote])
     (simp_all add: ex_env_literal_def credential_names_def lower_names is_space_def is_quote_def)

lemma ex_plain_literal_assignment: "credential_assignment ex_plain_literal"
  by (rule credential_assignmentI [where name = "''password''" and ?ws1.0 = "'' ''"
        and ?ws2.0 = "'' ''" and q = dquote and lit = "''swordfish!''" and q' = dquote])
     (simp_all add: ex_plain_literal_def credential_names_def lower_names is_space_def is_quote_def)

theorem hardcoded_secrets_suppression_witness:
  "credential_assignment ex_env_literal \<and> credential_assignment ex_plain_literal \<and>
   secret_matches ex_env_literal = [(0, ex_env_literal)] \<and>
   looks_like_env ex_env_literal \<and>
   check_for_hardcoded_secrets (ex_file ''python'') ex_env_literal = ex_file ''python'' \<and>
   secret_matches ex_plain_literal = [(0, ex_plain_literal)] \<and>
   \<not> looks_like_env ex_plain_literal \<and>
   0 \<le> security_score (security (ex_file ''python'')) \<and>
   vulnerabilities (security (check_for_hardcoded_secrets (ex_file ''python'') ex_plain_literal)) =
     [\<lparr> vuln_type = ''hardcoded_secret'', message = ''Possible hardcoded secret at line 1'',
        location = \<lparr> line = 1, column = 1, position = 0 \<rparr>, level = HIGH_RISK,
        severity = ''high'' \<rparr>] \<and>
   security_score (security (check_for_hardcoded_secrets (ex_file ''python'') ex_plain_literal)) = 85"
proof -
  have start: "vulnerabilities (security (ex_file ''python'')) = []"
    "security_score (security (ex_file ''python'')) = 100"
    by (simp_all add: ex_file_def)
  have env: "check_for_hardcoded_secrets (ex_file ''python'') ex_env_literal = ex_file ''python''"
    using hardcoded_secrets_suppression [of "ex_file ''python''" ex_env_literal]
    by (simp add: ex_env_literal_matches ex_env_literal_env)
  have plain: "vulnerabilities (security (check_for_hardcoded_secrets (ex_file ''python'') ex_plain_literal)) =
     [\<lparr> vuln_type = ''hardcoded_secret'', message = ''Possible hardcoded secret at line 1'',
        location = \<lparr> line = 1, column = 1, position = 0 \<rparr>, level = HIGH_RISK,
        severity = ''high'' \<rparr>] \<and>
     security_score (security (check_for_hardcoded_secrets (ex_file ''python'') ex_plain_literal)) = 85"
    using hardcoded_secrets_suppression [of "ex_file ''python''" ex_plain_literal]
    by (simp add: ex_plain_literal_matches ex_plain_literal_env ex_plain_literal_call start recorded_def)
  from env plain start show ?thesis
    by (simp add: ex_env_literal_matches ex_env_literal_env ex_plain_literal_matches
        ex_plain_literal_env ex_env_literal_assignment ex_plain_literal_assignment)
qed


lemma lits_prefix_in_content:
  assumes "(p, g) \<in> set (finditer False (lits pre @ rest) content)"
  shows "set pre \<subseteq> set content"
proof -
  from assms obtain r where "match_items False (lits pre @ rest) (drop p content) = Some r"
    using finditer_sound match_len_SomeD by blast
  then have "startswith (drop p content) pre"
    by (simp add: match_items_lits split: if_splits)
  then have "pre = take (length pre) (drop p content)"
    by (simp add: startswith_def)
  then have "set pre \<subseteq> set (drop p content)"
    by (metis set_take_subset)
  then show ?thesis
    using set_drop_subset by fastforce
qed

lemma no_lower_no_match:
  assumes "\<forall>x\<in>set content. \<not> is_ascii_lower x" and "list_ex is_ascii_lower pre"
  shows "finditer False (lits pre @ rest) content = []"
proof (rule ccontr)
  assume "finditer False (lits pre @ rest) content \<noteq> []"
  then obtain p g where "(p, g) \<in> set (finditer False (lits pre @ rest) content)"
    by (cases "finditer False (lits pre @ rest) content") auto
  then have "set pre \<subseteq> set content"
    by (rule lits_prefix_in_content)
  with assms show False
    by (auto simp: list_ex_iff)
qed

lemma no_lower_no_match_lits:
  assumes "\<forall>x\<in>set content. \<not> is_ascii_lower x" and "list_ex is_ascii_lower pre"
  shows "finditer False (lits pre) content = []"
  using no_lower_no_match [OF assms, of "[]"] by simp

lemma case_sensitive_checks:
  assumes "\<forall>x\<in>set content. \<not> is_ascii_lower x"
  shows "os_calls content = []" "sql_calls content = []" "deserialization_calls content = []"
    "eval_calls content = []" "document_write_calls content = []" "innerhtml_calls content = []"
  by (simp_all add: os_calls_def sql_calls_def deserialization_calls_def eval_calls_def
      document_write_calls_def innerhtml_calls_def all_matches_def
      os_command_injection_patterns_def sql_injection_patterns_def
      insecure_deserialization_patterns_def eval_pattern_def document_write_pattern_def
      innerhtml_pattern_def no_lower_no_match [OF assms] no_lower_no_match_lits [OF assms]
      is_ascii_lower_def)

lemma ex_lower_password_calls:
  "file_calls ''python'' ex_lower_password =
     [(''hardcoded_secret'', ''Possible hardcoded secret at line 1'',
       \<lparr> line = 1, column = 1, position = 0 \<rparr>, HIGH_RISK)]"
  by code_simp

lemma ex_upper_password_calls:
  "map fst (file_calls ''python'' ex_upper_password) = [''hardcoded_secret'']"
  by code_simp

lemma ex_mixed_api_key_calls:
  "map fst (file_calls ''python'' ex_mixed_api_key) = [''hardcoded_secret'']"
  by code_simp

lemma ex_upper_system_calls: "file_calls ''python'' ex_upper_system = []"
  by code_simp

lemma ex_upper_eval_calls: "file_calls ''python'' ex_upper_eval = []"
  by code_simp

lemma ex_upper_password_lower: "lower ex_upper_password = ex_lower_password"
  by code_simp

lemma ex_lower_password_lower: "lower ex_lower_password = ex_lower_password"
  by code_simp

lemma ex_lower_password_env: "\<not> looks_like_env ex_lower_password"
  by code_simp

lemma ex_all_upper_no_lower: "\<forall>x\<in>set ex_all_upper. \<not> is_ascii_lower x"
  by code_simp


lemma vuln_types_of_calls: "map vuln_type (map recorded cs) = map fst cs"
  by (simp add: recorded_def comp_def case_prod_beta)

lemma ex_file_vulnerability_types:
  "map vuln_type (vulnerabilities (security (analyze_file (ex_file lang) content ast_data))) =
     map fst (file_calls lang content)"
  by (simp only: analyze_file_calls add_all_vulnerabilities vuln_types_of_calls)
     (simp add: ex_file_def vuln_types_of_calls del: map_map)

text \<open>
  C10. The hardcoded-secret check ignores letter case: two contents that agree after
  lower-casing, with no environment idiom in any casing, leave the same record, so a
  credential assignment is found in every casing (\<^verbatim>\<open>PASSWORD = "x"\<close>,
  \<^verbatim>\<open>Api_Key = "x"\<close>). The other six checks compare letters exactly: on content without
  a lower-case letter they record nothing, and \<^verbatim>\<open>OS.SYSTEM(user_input)\<close> and \<^verbatim>\<open>EVAL(x)\<close>
  record nothing in Python content. A content that is one assignment of a quoted
  literal to a credential name written in any casing, without an environment idiom,
  has its vulnerability at offset 0 recorded.
\<close>

theorem secrets_ignore_case_other_rules_do_not:
  "(lower content = lower content' \<and> \<not> looks_like_env (lower content) \<longrightarrow>
      check_for_hardcoded_secrets fm content = check_for_hardcoded_secrets fm content') \<and>
   ((\<forall>x\<in>set content. \<not> is_ascii_lower x) \<longrightarrow>
      check_for_os_command_injection fm content = fm \<and>
      check_for_sql_injection fm content = fm \<and>
      check_for_insecure_deserialization fm content = fm \<and>
      check_for_eval fm content = fm \<and>
      check_for_document_write fm content = fm \<and>
      check_for_innerhtml fm content = fm) \<and>
   map vuln_type (vulnerabilities (security
     (analyze_file (ex_file ''python'') ex_upper_password (None :: unit option)))) =
     [''hardcoded_secret''] \<and>
   map vuln_type (vulnerabilities (security
     (analyze_file (ex_file ''python'') ex_mixed_api_key (None :: unit option)))) =
     [''hardcoded_secret''] \<and>
   analyze_file (ex_file ''python'') ex_upper_system (None :: unit option) = ex_file ''python'' \<and>
   analyze_file (ex_file ''python'') ex_upper_eval (None :: unit option) = ex_file ''python'' \<and>
   (credential_assignment content \<and> \<not> looks_like_env content \<longrightarrow>
      secret_at_start \<in> set (vulnerabilities (security (check_for_hardcoded_secrets fm content))))"
proof -
  have insensitive: "check_for_hardcoded_secrets fm content = check_for_hardcoded_secrets fm content'"
    if same: "lower content = lower content'" and env: "\<not> looks_like_env (lower content)"
  proof -
    have "secret_calls content = secret_calls (lower content)"
      using env by (rule secret_calls_lower)
    also have "\<dots> = secret_calls content'"
      using env unfolding same by (rule secret_calls_lower [symmetric])
    finally show ?thesis
      by (simp only: check_for_hardcoded_secrets_calls)
  qed
  have sensitive: "check_for_os_command_injection fm content = fm \<and>
      check_for_sql_injection fm content = fm \<and>
      check_for_insecure_deserialization fm content = fm \<and>
      check_for_eval fm content = fm \<and>
      check_for_document_write fm content = fm \<and>
      check_for_innerhtml fm content = fm"
    if "\<forall>x\<in>set content. \<not> is_ascii_lower x"
    by (simp only: check_for_os_command_injection_calls check_for_sql_injection_calls
        check_for_insecure_deserialization_calls check_for_eval_calls
        check_for_document_write_calls check_for_innerhtml_calls
        case_sensitive_checks [OF that] add_all_Nil simp_thms)
  have password: "map vuln_type (vulnerabilities (security
     (analyze_file (ex_file ''python'') ex_upper_password (None :: unit option)))) =
     [''hardcoded_secret'']"
    by (simp only: ex_file_vulnerability_types ex_upper_password_calls)
  have api_key: "map vuln_type (vulnerabilities (security
     (analyze_file (ex_file ''python'') ex_mixed_api_key (None :: unit option)))) =
     [''hardcoded_secret'']"
    by (simp only: ex_file_vulnerability_types ex_mixed_api_key_calls)
  have lang: "language (ex_file ''python'') = ''python''"
    by (simp add: ex_file_def)
  have system: "analyze_file (ex_file ''python'') ex_upper_system (None :: unit option) =
      ex_file ''python''"
    by (simp only: analyze_file_calls lang ex_upper_system_calls add_all_Nil)
  have eval: "analyze_file (ex_file ''python'') ex_upper_eval (None :: unit option) =
      ex_file ''python''"
    by (simp only: analyze_file_calls lang ex_upper_eval_calls add_all_Nil)
  have any_casing: "secret_at_start \<in>
      set (vulnerabilities (security (check_for_hardcoded_secrets fm content)))"
    if "credential_assignment content" "\<not> looks_like_env content"
    using credential_assignment_recorded(1) [OF that(1), of fm] that(2) by blast
  from insensitive sensitive password api_key system eval any_casing show ?thesis
    by blast
qed

lemma lower_mixed_name: "lower ''Api_Key'' = ''api_key''"
  by code_simp

lemma ex_mixed_api_key_assignment: "credential_assignment ex_mixed_api_key"
  by (rule credential_assignmentI [where name = "''Api_Key''" and ?ws1.0 = "'' ''"
        and ?ws2.0 = "'' ''" and q = dquote and lit = "''x''" and q' = dquote])
     (simp_all add: ex_mixed_api_key_def credential_names_def lower_mixed_name
        is_space_def is_quote_def)

lemma ex_mixed_api_key_env: "\<not> looks_like_env ex_mixed_api_key"
  by code_simp

theorem secrets_ignore_case_other_rules_do_not_witness:
  "credential_assignment ex_mixed_api_key \<and> \<not> looks_like_env ex_mixed_api_key \<and>
   secret_at_start \<in> set (vulnerabilities (security
     (check_for_hardcoded_secrets (ex_file ''python'') ex_mixed_api_key))) \<and>
   lower ex_upper_password = lower ex_lower_password \<and>
   \<not> looks_like_env (lower ex_upper_password) \<and>
   check_for_hardcoded_secrets (ex_file ''python'') ex_upper_password =
     check_for_hardcoded_secrets (ex_file ''python'') ex_lower_password \<and>
   map vuln_type (vulnerabilities (security
     (check_for_hardcoded_secrets (ex_file ''python'') ex_lower_password))) = [''hardcoded_secret''] \<and>
   filter is_ascii_lower ex_all_upper = [] \<and>
   check_for_os_command_injection (ex_file ''python'') ex_all_upper = ex_file ''python'' \<and>
   check_for_eval (ex_file ''jsx'') ex_all_upper = ex_file ''jsx''"
proof -
  have same: "lower ex_upper_password = lower ex_lower_password"
    by (simp only: ex_upper_password_lower ex_lower_password_lower)
  have env: "\<not> looks_like_env (lower ex_upper_password)"
    by (simp only: ex_upper_password_lower ex_lower_password_env simp_thms)
  have found: "check_for_hardcoded_secrets (ex_file ''python'') ex_upper_password =
     check_for_hardcoded_secrets (ex_file ''python'') ex_lower_password"
    using secrets_ignore_case_other_rules_do_not
      [of ex_upper_password ex_lower_password "ex_file ''python''"] same env
    by blast
  have "secret_calls ex_lower_password =
      [(''hardcoded_secret'', ''Possible hardcoded secret at line 1'',
        \<lparr> line = 1, column = 1, position = 0 \<rparr>, HIGH_RISK)]"
    by code_simp
  then have lower_found: "map vuln_type (vulnerabilities (security
     (check_for_hardcoded_secrets (ex_file ''python'') ex_lower_password))) = [''hardcoded_secret'']"
    by (simp add: check_for_hardcoded_secrets_calls add_all_vulnerabilities ex_file_def recorded_def)
  have python: "check_for_os_command_injection (ex_file ''python'') ex_all_upper = ex_file ''python''"
    using secrets_ignore_case_other_rules_do_not
      [of ex_all_upper ex_all_upper "ex_file ''python''"] ex_all_upper_no_lower
    by blast
  have jsx: "check_for_eval (ex_file ''jsx'') ex_all_upper = ex_file ''jsx''"
    using secrets_ignore_case_other_rules_do_not
      [of ex_all_upper ex_all_upper "ex_file ''jsx''"] ex_all_upper_no_lower
    by blast
  have api_key: "secret_at_start \<in> set (vulnerabilities (security
     (check_for_hardcoded_secrets (ex_file ''python'') ex_mixed_api_key)))"
    using secrets_ignore_case_other_rules_do_not
      [of ex_mixed_api_key ex_mixed_api_key "ex_file ''python''"]
      ex_mixed_api_key_assignment ex_mixed_api_key_env
    by blast
  have no_lower: "filter is_ascii_lower ex_all_upper = []"
    using ex_all_upper_no_lower by (simp only: filter_empty_conv)
  from same env found lower_found no_lower python jsx api_key
    ex_mixed_api_key_assignment ex_mixed_api_key_env show ?thesis
    by blast
qed

end
